theory Spec2Isabelle
  imports Main "HOL-Library.Word"
begin

unbundle bit_operations_syntax

section \<open>Machine types\<close>

text \<open>
  The firmware targets the ESP32-S3: \<open>int\<close> and \<open>unsigned long\<close> are 32 bits wide,
  \<open>uint16_t\<close> indices are 16 bits, payload bytes are \<open>uint8_t\<close>.  A 32-bit word
  read with \<open>sint\<close> is a C \<open>int\<close>.
\<close>

type_synonym u8 = "8 word"
type_synonym u16 = "16 word"
type_synonym u32 = "32 word"
type_synonym i32 = "32 word"
type_synonym bytes = "u8 list"

section \<open>Relay: legacy 8-bit to 16-bit conversion\<close>

text \<open>
  \<^verbatim>\<open>int16_t s16 = ((int)s8 - 128) << 8;\<close> (Relay, \<open>bleNotifyTask\<close> and \<open>loop\<close>):
  the subtraction and the shift are done in \<open>int\<close>, the result is narrowed to 16 bits.
\<close>

definition upsample_s16 :: "u8 \<Rightarrow> u16" where
  "upsample_s16 s8 = ucast (push_bit 8 ((ucast s8 :: i32) - 128))"

text \<open>\<^verbatim>\<open>(uint8_t)(s16 & 0xFF)\<close>: \<open>s16\<close> is promoted to \<open>int\<close> with its sign.\<close>

definition s16_lo :: "u16 \<Rightarrow> u8" where
  "s16_lo s16 = ucast ((scast s16 :: i32) AND 0xFF)"

text \<open>\<^verbatim>\<open>(uint8_t)((s16 >> 8) & 0xFF)\<close>: an arithmetic shift of the promoted value.\<close>

definition s16_hi :: "u16 \<Rightarrow> u8" where
  "s16_hi s16 = ucast (signed_drop_bit 8 (scast s16 :: i32) AND 0xFF)"

text \<open>
  The conversion loop
  \<^verbatim>\<open>for (int i = 0; i < item.length && outLen + 2 <= (int)sizeof(pcm16); i++)\<close>
  over the first \<open>item.length\<close> bytes of the item; the second argument is the part
  of \<open>pcm16\<close> written so far (its length is \<open>outLen\<close>, \<open>sizeof(pcm16)\<close> is 512).
\<close>

fun pcm8_to_pcm16 :: "bytes \<Rightarrow> bytes \<Rightarrow> bytes" where
  "pcm8_to_pcm16 [] pcm16 = pcm16"
| "pcm8_to_pcm16 (s8 # rest) pcm16 =
     (if length pcm16 + 2 \<le> 512
      then pcm8_to_pcm16 rest (pcm16 @ [s16_lo (upsample_s16 s8), s16_hi (upsample_s16 s8)])
      else pcm16)"

section \<open>Memory copies\<close>

text \<open>
  \<^verbatim>\<open>memcpy(dst + off, src, n)\<close> on an array modelled as a list: the bytes before
  \<open>off\<close> and from \<open>off + n\<close> on stay as they were.  The source region must hold
  \<open>n\<close> elements and the destination \<open>off + n\<close>; the model's callers establish both.
\<close>

definition memcpy :: "'a list \<Rightarrow> nat \<Rightarrow> 'a list \<Rightarrow> nat \<Rightarrow> 'a list" where
  "memcpy dst off src n = take off dst @ take n src @ drop (off + n) dst"

text \<open>\<^verbatim>\<open>memset(dst + off, v, n)\<close> and \<^verbatim>\<open>memmove(buf + dst, buf + src, n)\<close> within one array.\<close>

definition memset :: "bytes \<Rightarrow> nat \<Rightarrow> u8 \<Rightarrow> nat \<Rightarrow> bytes" where
  "memset dst off v n = take off dst @ replicate n v @ drop (off + n) dst"

definition memmove :: "bytes \<Rightarrow> nat \<Rightarrow> nat \<Rightarrow> nat \<Rightarrow> bytes" where
  "memmove buf dst src n = memcpy buf dst (drop src buf) n"

section \<open>Hub: the queue of GATT writes (\<open>bleInQueue\<close>, 16 slots)\<close>

record IncomingBleItem =
  item_length :: u16
  item_data :: bytes

record ble_in =
  bleInHead :: u16
  bleInTail :: u16
  bleInQueue :: "IncomingBleItem list"

text \<open>\<open>bleInPushFromISR(buf, len)\<close>; the result is the returned flag and the new queue.\<close>

definition bleInPushFromISR :: "bytes \<Rightarrow> u16 \<Rightarrow> ble_in \<Rightarrow> bool \<times> ble_in" where
  "bleInPushFromISR buf len0 q =
     (let len = (if 256 < len0 then 256 else len0);
          nextHead = (bleInHead q + 1) AND 0x0F
      in if nextHead = bleInTail q then (False, q)
         else
           let i = unat (bleInHead q AND 0x0F);
               slot = bleInQueue q ! i;
               slot' = slot\<lparr>item_length := len,
                             item_data := memcpy (item_data slot) 0 buf (unat len)\<rparr>
           in (True, q\<lparr>bleInQueue := (bleInQueue q)[i := slot'], bleInHead := nextHead\<rparr>))"

text \<open>
  \<open>bleInPop(out)\<close>: the caller's item \<open>out\<close> is overwritten in its length and in the
  first \<open>length\<close> bytes of its data.
\<close>

definition bleInPop :: "IncomingBleItem \<Rightarrow> ble_in \<Rightarrow> bool \<times> IncomingBleItem \<times> ble_in" where
  "bleInPop out q =
     (let tail = bleInTail q; head = bleInHead q
      in if tail = head then (False, out, q)
         else
           let slot = bleInQueue q ! unat (tail AND 0x0F);
               out' = out\<lparr>item_length := item_length slot,
                           item_data := memcpy (item_data out) 0 (item_data slot)
                                          (unat (item_length slot))\<rparr>
           in (True, out', q\<lparr>bleInTail := (tail + 1) AND 0x0F\<rparr>))"

text \<open>The bytes an item carries: \<open>addAudioData(item.data, item.length)\<close> reads these.\<close>

definition item_payload :: "IncomingBleItem \<Rightarrow> bytes" where
  "item_payload it = take (unat (item_length it)) (item_data it)"

text \<open>The statically allocated, zero-initialised queue at boot.\<close>

definition bleIn_init :: ble_in where
  "bleIn_init = \<lparr>bleInHead = 0, bleInTail = 0,
                 bleInQueue = replicate 16 \<lparr>item_length = 0, item_data = replicate 256 0\<rparr>\<rparr>"

text \<open>
  A run of GATT writes, each pushed as \<open>onWrite\<close> does
  (\<^verbatim>\<open>bleInPushFromISR(rxValue.data(), (uint16_t)rxValue.length())\<close>), and a run of
  pops into the same local item, as the drain loop of \<open>loop()\<close> does.
\<close>

fun bleIn_push_all :: "bytes list \<Rightarrow> ble_in \<Rightarrow> bool list \<times> ble_in" where
  "bleIn_push_all [] q = ([], q)"
| "bleIn_push_all (buf # bufs) q =
     (let (ok, q') = bleInPushFromISR buf (of_nat (length buf)) q;
          (oks, q'') = bleIn_push_all bufs q'
      in (ok # oks, q''))"

fun bleIn_pop_n :: "nat \<Rightarrow> IncomingBleItem \<Rightarrow> ble_in \<Rightarrow> bytes option list \<times> ble_in" where
  "bleIn_pop_n 0 item q = ([], q)"
| "bleIn_pop_n (Suc m) item q =
     (let (ok, item', q') = bleInPop item q;
          (rs, q'') = bleIn_pop_n m item' q'
      in ((if ok then Some (item_payload item') else None) # rs, q''))"

section \<open>Relay: the notification queue (\<open>notifyQueue\<close>, 64 slots)\<close>

record NotifyItem =
  n_length :: u16
  n_data :: bytes
  isPcm8 :: u8

record notify_ring =
  notifyHead :: u16
  notifyTail :: u16
  notifyQueue :: "NotifyItem list"

definition notifyQueuePushFromISR :: "bytes \<Rightarrow> u16 \<Rightarrow> u8 \<Rightarrow> notify_ring \<Rightarrow> bool \<times> notify_ring" where
  "notifyQueuePushFromISR buf len0 pcm8 q =
     (let len = (if 256 < len0 then 256 else len0);
          nextHead = (notifyHead q + 1) AND 63
      in if nextHead = notifyTail q then (False, q)
         else
           let i = unat (notifyHead q AND 63);
               slot = notifyQueue q ! i;
               slot' = slot\<lparr>n_length := len,
                             n_data := memcpy (n_data slot) 0 buf (unat len),
                             isPcm8 := pcm8\<rparr>
           in (True, q\<lparr>notifyQueue := (notifyQueue q)[i := slot'], notifyHead := nextHead\<rparr>))"

text \<open>
  \<open>notifyQueuePop(out)\<close> copies the length and the data; the \<open>isPcm8\<close> field of
  \<open>out\<close> is not assigned and keeps whatever the caller's item held.
\<close>

definition notifyQueuePop :: "NotifyItem \<Rightarrow> notify_ring \<Rightarrow> bool \<times> NotifyItem \<times> notify_ring" where
  "notifyQueuePop out q =
     (let tail = notifyTail q; head = notifyHead q
      in if tail = head then (False, out, q)
         else
           let slot = notifyQueue q ! unat (tail AND 63);
               out' = out\<lparr>n_length := n_length slot,
                           n_data := memcpy (n_data out) 0 (n_data slot) (unat (n_length slot))\<rparr>
           in (True, out', q\<lparr>notifyTail := (tail + 1) AND 63\<rparr>))"

definition notify_payload :: "NotifyItem \<Rightarrow> bytes" where
  "notify_payload it = take (unat (n_length it)) (n_data it)"

definition notify_init :: notify_ring where
  "notify_init = \<lparr>notifyHead = 0, notifyTail = 0,
     notifyQueue = replicate 64 \<lparr>n_length = 0, n_data = replicate 512 0, isPcm8 = 0\<rparr>\<rparr>"

fun notify_push_all :: "(bytes \<times> u8) list \<Rightarrow> notify_ring \<Rightarrow> bool list \<times> notify_ring" where
  "notify_push_all [] q = ([], q)"
| "notify_push_all ((buf, pcm8) # bufs) q =
     (let (ok, q') = notifyQueuePushFromISR buf (of_nat (length buf)) pcm8 q;
          (oks, q'') = notify_push_all bufs q'
      in (ok # oks, q''))"

fun notify_pop_n :: "nat \<Rightarrow> NotifyItem \<Rightarrow> notify_ring \<Rightarrow> bytes option list \<times> notify_ring" where
  "notify_pop_n 0 item q = ([], q)"
| "notify_pop_n (Suc m) item q =
     (let (ok, item', q') = notifyQueuePop item q;
          (rs, q'') = notify_pop_n m item' q'
      in ((if ok then Some (notify_payload item') else None) # rs, q''))"

section \<open>The compact text frame\<close>

text \<open>
  \<open>snprintf\<close> with \<open>%d\<close>: the decimal digits of a C \<open>int\<close>, with a minus sign for a
  negative value.
\<close>

fun dec_digits :: "nat \<Rightarrow> bytes" where
  "dec_digits n =
     (if n < 10 then [of_nat (48 + n)] else dec_digits (n div 10) @ [of_nat (48 + n mod 10)])"

declare dec_digits.simps [simp del]

definition print_d :: "i32 \<Rightarrow> bytes" where
  "print_d v =
     (if sint v < 0 then 0x2D # dec_digits (nat (- sint v)) else dec_digits (nat (sint v)))"

fun join_colon :: "bytes list \<Rightarrow> bytes" where
  "join_colon [] = []"
| "join_colon [x] = x"
| "join_colon (x # y # zs) = x @ [0x3A] @ join_colon (y # zs)"

text \<open>
  The text \<^verbatim>\<open>snprintf(messageBuffer, 300, "P:%d:%d:%d:%d:%d:%d:%d:%d", ...)\<close> formats
  (Hub, \<open>sendAudioChunks\<close>).  Eight \<open>int\<close>s make at most 97 characters
  (lemma \<open>compact_header_length\<close>), so the 300-byte buffer never truncates it.
\<close>

definition compact_header :: "i32 list \<Rightarrow> bytes" where
  "compact_header vals = [0x50, 0x3A] @ join_colon (map print_d vals)"

text \<open>
  The next statement of \<open>sendAudioChunks\<close>: the separator and the raw payload are
  appended when \<^verbatim>\<open>messageLen + rawSize + 1 < sizeof(messageBuffer)\<close>.  The result is
  the first \<open>messageLen\<close> bytes of \<open>messageBuffer\<close>.
\<close>

definition compact_frame :: "i32 list \<Rightarrow> bytes \<Rightarrow> bytes" where
  "compact_frame vals rawBuffer =
     (let header = compact_header vals;
          messageLen = int (length header);
          rawSize = int (length rawBuffer)
      in if messageLen + rawSize + 1 < 300 then header @ [0x3A] @ rawBuffer else header)"

text \<open>
  The size check that follows (\<^verbatim>\<open>if (messageLen > 250)\<close>): the audio part is cut to
  \<open>maxAudioData\<close> bytes, or the chunk is skipped (\<open>None\<close>) when no room is left.
\<close>

definition fit_espnow :: "bytes \<Rightarrow> bytes \<Rightarrow> bytes option" where
  "fit_espnow message rawBuffer =
     (let messageLen = int (length message);
          rawSize = int (length rawBuffer)
      in if 250 < messageLen then
           let maxAudioData = 250 - messageLen + rawSize
           in if 0 < maxAudioData then
                let messageLen' = messageLen - rawSize + maxAudioData
                in Some (take (nat messageLen')
                          (memcpy message (nat (messageLen' - maxAudioData)) rawBuffer
                             (nat maxAudioData)))
              else None
         else Some message)"

text \<open>
  Relay, \<open>parseCompactAudioHeader\<close>.  The loop reads the bytes after \<open>P:\<close>; its
  arguments are the bytes not yet read, the index \<open>idx\<close>, the number being read and
  the fields stored so far (\<open>field\<close> is their count).  \<open>current * 10 + (c - '0')\<close> is
  \<open>int\<close> arithmetic, modelled with the wrap-around of the machine.
\<close>

fun parse_loop :: "bytes \<Rightarrow> nat \<Rightarrow> i32 \<Rightarrow> i32 list \<Rightarrow> (i32 list \<times> nat) option" where
  "parse_loop [] idx current vals = (if length vals < 8 then None else Some (vals, idx))"
| "parse_loop (c # rest) idx current vals =
     (if length vals < 8 then
        (if c = 0x3A then parse_loop rest (idx + 1) 0 (vals @ [current])
         else if 0x30 \<le> c \<and> c \<le> 0x39
              then parse_loop rest (idx + 1) (current * 10 + (ucast c - 0x30)) vals
         else None)
      else Some (vals, idx))"

text \<open>\<open>Some (values, dataStart)\<close> when the function returns true, \<open>None\<close> when false.\<close>

definition parseCompactAudioHeader :: "bytes \<Rightarrow> (i32 list \<times> nat) option" where
  "parseCompactAudioHeader data =
     (if length data < 5 \<or> data ! 0 \<noteq> 0x50 \<or> data ! 1 \<noteq> 0x3A then None
      else case parse_loop (drop 2 data) 2 0 [] of
             None \<Rightarrow> None
           | Some (vals, dataStart) \<Rightarrow>
               if dataStart < length data then Some (vals, dataStart) else None)"

text \<open>For the proofs: the test the parser applies to a digit, and the number a run of digits denotes.\<close>

definition is_digit :: "u8 \<Rightarrow> bool" where
  "is_digit c \<longleftrightarrow> 0x30 \<le> c \<and> c \<le> 0x39"

definition digits_value :: "i32 \<Rightarrow> bytes \<Rightarrow> i32" where
  "digits_value cur ds = foldl (\<lambda>a c. a * 10 + (ucast c - 0x30)) cur ds"

section \<open>Hub: the peer registry\<close>

text \<open>
  \<open>struct MeshDevice\<close> and the globals of the Hub that the registry, the accumulator
  and the chunk sender use.  \<open>meshDevices\<close> is the array of \<open>MAX_MESH_DEVICES\<close>
  entries, of which the first \<open>meshDeviceCount\<close> are registered; \<open>pAudioCharacteristic\<close>
  is true when the pointer is not null.  Counts and the buffer index are \<open>int\<close>s of the
  source that never go below zero.
\<close>

record MeshDevice =
  mac :: bytes
  deviceName :: string
  deviceType :: string
  lastSeen :: u32
  isActive :: bool
  isCoordinator :: bool
  audioQuality :: int

record hub =
  meshDevices :: "MeshDevice list"
  meshDeviceCount :: nat
  meshNetworkActive :: bool
  isAudioStreaming :: bool
  deviceConnected :: bool
  pAudioCharacteristic :: bool
  audioBuffer :: bytes
  audioBufferIndex :: nat
  audioSequenceNumber :: i32

definition MAX_MESH_DEVICES :: nat where
  "MAX_MESH_DEVICES = 4"

definition DEVICE_TIMEOUT :: u32 where
  "DEVICE_TIMEOUT = 30000"

definition AUDIO_BUFFER_SIZE :: nat where
  "AUDIO_BUFFER_SIZE = 1024"

definition AUDIO_CHUNK_SIZE :: nat where
  "AUDIO_CHUNK_SIZE = 200"

text \<open>
  A control message after \<open>deserializeJson\<close>, by its \<open>type\<close> field; \<open>mesh_join\<close>
  carries \<open>device_name\<close> and \<open>device_type\<close>.
\<close>

datatype ctrl_in =
    mesh_join string string
  | mesh_ready
  | audio_data
  | mesh_heartbeat
  | mesh_leave
  | audio_ack
  | other_type
  | parse_failure

text \<open>Results of the radio transport (\<open>esp_now_add_peer\<close>, \<open>esp_now_get_peer\<close>, \<open>esp_now_send\<close>).\<close>

datatype esp_err = ESP_OK | ESP_ERR_ESPNOW_ARG | ESP_ERR_ESPNOW_NOT_FOUND | ESP_ERR_OTHER

text \<open>
  What the Hub hands to the radio and to the GATT characteristic: \<open>MeshAck mac status
  count\<close> is \<open>sendMeshAck\<close>, \<open>AudioFrame mac message\<close> an \<open>esp_now_send\<close> of an
  audio frame, \<open>CtrlSend mac\<close> an accepted heartbeat, status or relay message,
  \<open>BleNotify\<close> a \<open>setValue\<close> and \<open>notify\<close>.
\<close>

datatype hub_out =
    MeshAck bytes string nat
  | AudioAck bytes
  | AudioFrame bytes bytes
  | CtrlSend bytes
  | BleNotify bytes

text \<open>
  A way the source does not return normally: a copy with a negative size, or a loop
  that steps back onto the same entry without having changed anything.
\<close>

datatype fault = MemoryFault | NoReturn

text \<open>
  The search \<^verbatim>\<open>for (i = 0; i < meshDeviceCount; i++) if (memcmp(meshDevices[i].mac, mac, 6) == 0)\<close>
  that opens \<open>addDeviceToMesh\<close>, \<open>removeDeviceFromMesh\<close>, \<open>updateDeviceHeartbeat\<close>
  and the \<open>mesh_ready\<close> branch: the first registered index with that address.
\<close>

fun find_mac :: "MeshDevice list \<Rightarrow> bytes \<Rightarrow> nat option" where
  "find_mac [] m = None"
| "find_mac (d # ds) m = (if mac d = m then Some 0 else map_option Suc (find_mac ds m))"

definition peers :: "hub \<Rightarrow> MeshDevice list" where
  "peers st = take (meshDeviceCount st) (meshDevices st)"

text \<open>
  \<open>addDeviceToMesh\<close>.  \<open>now\<close> is \<open>millis()\<close>, \<open>addPeer\<close> the result of
  \<open>esp_now_add_peer\<close>.  The new entry is written before the transport is asked, the
  count grows only when the transport accepts.
\<close>

definition addDeviceToMesh ::
    "hub \<Rightarrow> bytes \<Rightarrow> string \<Rightarrow> string \<Rightarrow> u32 \<Rightarrow> esp_err \<Rightarrow> bool \<times> hub" where
  "addDeviceToMesh st m name type now addPeer =
     (case find_mac (peers st) m of
        Some i \<Rightarrow>
          (True, st\<lparr>meshDevices := (meshDevices st)[i := (meshDevices st ! i)\<lparr>lastSeen := now\<rparr>]\<rparr>)
      | None \<Rightarrow>
          if meshDeviceCount st < MAX_MESH_DEVICES then
            let n = meshDeviceCount st;
                d = (meshDevices st ! n)\<lparr>mac := m, deviceName := name, deviceType := type,
                      lastSeen := now, isActive := False, isCoordinator := False,
                      audioQuality := 100\<rparr>;
                st' = st\<lparr>meshDevices := (meshDevices st)[n := d]\<rparr>
            in if addPeer = ESP_OK then (True, st'\<lparr>meshDeviceCount := n + 1\<rparr>)
               else (False, st')
          else (False, st))"

text \<open>\<^verbatim>\<open>for (j = i; j < meshDeviceCount - 1; j++) meshDevices[j] = meshDevices[j + 1];\<close>\<close>

function shift_devices :: "MeshDevice list \<Rightarrow> nat \<Rightarrow> nat \<Rightarrow> MeshDevice list" where
  "shift_devices devs j n =
     (if j + 1 < n then shift_devices (devs[j := devs ! (j + 1)]) (j + 1) n else devs)"
  by pat_completeness auto
termination
  by (relation "measure (\<lambda>(devs, j, n). n - j)") auto

declare shift_devices.simps [simp del]

definition removeDeviceFromMesh :: "hub \<Rightarrow> bytes \<Rightarrow> bool \<times> hub" where
  "removeDeviceFromMesh st m =
     (case find_mac (peers st) m of
        Some i \<Rightarrow>
          (True, st\<lparr>meshDevices := shift_devices (meshDevices st) i (meshDeviceCount st),
                    meshDeviceCount := meshDeviceCount st - 1\<rparr>)
      | None \<Rightarrow> (False, st))"

definition updateDeviceHeartbeat :: "hub \<Rightarrow> bytes \<Rightarrow> u32 \<Rightarrow> hub" where
  "updateDeviceHeartbeat st m now =
     (case find_mac (peers st) m of
        Some i \<Rightarrow>
          st\<lparr>meshDevices :=
               (meshDevices st)[i := (meshDevices st ! i)\<lparr>lastSeen := now, isActive := True\<rparr>]\<rparr>
      | None \<Rightarrow> st)"

text \<open>The loop of the \<open>mesh_ready\<close> branch of \<open>OnDataRecv\<close>.\<close>

definition mark_ready :: "hub \<Rightarrow> bytes \<Rightarrow> u32 \<Rightarrow> hub" where
  "mark_ready st m now =
     (case find_mac (peers st) m of
        Some i \<Rightarrow>
          st\<lparr>meshDevices :=
               (meshDevices st)[i := (meshDevices st ! i)\<lparr>lastSeen := now, isActive := True\<rparr>]\<rparr>
      | None \<Rightarrow> st)"

lemma find_mac_bound: "find_mac ds m = Some i \<Longrightarrow> i < length ds"
  by (induction ds arbitrary: i) (auto split: if_splits)

lemma remove_count:
  "removeDeviceFromMesh st m = (True, st') \<Longrightarrow> meshDeviceCount st' < meshDeviceCount st"
  by (auto simp add: removeDeviceFromMesh_def peers_def split: option.splits
      dest!: find_mac_bound)

lemma remove_fail: "removeDeviceFromMesh st m = (False, st') \<Longrightarrow> st' = st"
  by (auto simp add: removeDeviceFromMesh_def split: option.splits)

text \<open>
  The loop of \<open>cleanupInactiveDevices\<close>.  After a removal the source steps the index
  back (\<open>i--\<close>) and the loop's \<open>i++\<close> brings it to the same position again.  The
  age \<open>currentTime - lastSeen\<close> is \<open>unsigned long\<close> arithmetic.
\<close>

function cleanup_loop :: "u32 \<Rightarrow> nat \<Rightarrow> hub \<Rightarrow> hub" where
  "cleanup_loop currentTime i st =
     (if i < meshDeviceCount st then
        if MAX_MESH_DEVICES \<le> i then st
        else if isActive (meshDevices st ! i)
                \<and> DEVICE_TIMEOUT < currentTime - lastSeen (meshDevices st ! i)
        then (case removeDeviceFromMesh st (mac (meshDevices st ! i)) of
                (True, st') \<Rightarrow> cleanup_loop currentTime i st'
              | (False, st') \<Rightarrow> cleanup_loop currentTime (i + 1) st')
        else cleanup_loop currentTime (i + 1) st
      else st)"
  by pat_completeness auto
termination
  apply (relation "measure (\<lambda>(t, i, st). 2 * meshDeviceCount st - i)")
     apply simp
    apply (auto dest!: remove_count [OF sym] remove_fail [OF sym])
  done

declare cleanup_loop.simps [simp del]

definition cleanupInactiveDevices :: "hub \<Rightarrow> u32 \<Rightarrow> hub" where
  "cleanupInactiveDevices st currentTime =
     (if \<not> meshNetworkActive st then st else cleanup_loop currentTime 0 st)"

text \<open>The removal condition of the sweep, for one entry.\<close>

definition stale :: "u32 \<Rightarrow> MeshDevice \<Rightarrow> bool" where
  "stale currentTime d \<longleftrightarrow> isActive d \<and> DEVICE_TIMEOUT < currentTime - lastSeen d"

text \<open>
  The radio as the sending loops see it: the \<open>k\<close>-th attempt gets the results of
  \<open>esp_now_get_peer\<close> and of \<open>esp_now_send\<close>.
\<close>

type_synonym radio = "nat \<Rightarrow> esp_err \<times> esp_err"

text \<open>
  The loop shared, statement for statement, by \<open>sendMeshHeartbeat\<close>,
  \<open>broadcastMeshStatus\<close> and \<open>relayAudioToMesh\<close>: every active entry is validated and
  sent to; an entry the transport does not know is removed and the index stepped back.
  \<open>src\<close> is the \<open>sourceMac\<close> that \<open>relayAudioToMesh\<close> leaves out, \<open>guard\<close> its
  bounds check on \<open>i\<close>.  The index is stepped back whatever \<open>removeDeviceFromMesh\<close>
  returned; had it returned false the loop would visit the same entry for ever.
\<close>

function send_loop ::
    "bytes option \<Rightarrow> bool \<Rightarrow> radio \<Rightarrow> nat \<Rightarrow> nat \<Rightarrow> hub \<Rightarrow> hub_out list
      \<Rightarrow> fault + hub \<times> hub_out list" where
  "send_loop src guard tx k i st outs =
     (if i < meshDeviceCount st then
        if guard \<and> MAX_MESH_DEVICES \<le> i then Inr (st, outs)
        else if isActive (meshDevices st ! i)
                \<and> (src = None \<or> src \<noteq> Some (mac (meshDevices st ! i)))
        then
          if fst (tx k) = ESP_OK then
            if snd (tx k) = ESP_OK
            then send_loop src guard tx (k + 1) (i + 1) st
                   (outs @ [CtrlSend (mac (meshDevices st ! i))])
            else if snd (tx k) = ESP_ERR_ESPNOW_ARG \<or> snd (tx k) = ESP_ERR_ESPNOW_NOT_FOUND
            then (case removeDeviceFromMesh st (mac (meshDevices st ! i)) of
                    (True, st') \<Rightarrow> send_loop src guard tx (k + 1) i st' outs
                  | (False, st') \<Rightarrow> Inl NoReturn)
            else send_loop src guard tx (k + 1) (i + 1) st outs
          else (case removeDeviceFromMesh st (mac (meshDevices st ! i)) of
                  (True, st') \<Rightarrow> send_loop src guard tx (k + 1) i st' outs
                | (False, st') \<Rightarrow> Inl NoReturn)
        else send_loop src guard tx k (i + 1) st outs
      else Inr (st, outs))"
  by pat_completeness auto
termination
  apply (relation "measure (\<lambda>(src, guard, tx, k, i, st, outs). 2 * meshDeviceCount st - i)")
       apply simp
      apply (auto dest!: remove_count [OF sym])
  done

declare send_loop.simps [simp del]

definition relayAudioToMesh :: "hub \<Rightarrow> bytes \<Rightarrow> int \<Rightarrow> radio \<Rightarrow> fault + hub \<times> hub_out list" where
  "relayAudioToMesh st sourceMac len tx =
     (if \<not> meshNetworkActive st \<or> len \<le> 0 then Inr (st, [])
      else send_loop (Some sourceMac) True tx 0 0 st [])"

definition sendMeshHeartbeat :: "hub \<Rightarrow> radio \<Rightarrow> fault + hub \<times> hub_out list" where
  "sendMeshHeartbeat st tx =
     (if meshDeviceCount st = 0 then Inr (st, []) else send_loop None False tx 0 0 st [])"

definition broadcastMeshStatus :: "hub \<Rightarrow> radio \<Rightarrow> fault + hub \<times> hub_out list" where
  "broadcastMeshStatus st tx =
     (if meshDeviceCount st = 0 then Inr (st, []) else send_loop None False tx 0 0 st [])"

text \<open>
  The Hub's \<open>OnDataRecv(mac, data, len)\<close> on a parsed message.  \<open>now\<close> is
  \<open>millis()\<close>, \<open>addPeer\<close> and \<open>tx\<close> are what the transport will answer.
\<close>

definition OnDataRecv ::
    "hub \<Rightarrow> bytes \<Rightarrow> ctrl_in \<Rightarrow> int \<Rightarrow> u32 \<Rightarrow> esp_err \<Rightarrow> radio \<Rightarrow> fault + hub \<times> hub_out list" where
  "OnDataRecv st m msg len now addPeer tx =
     (case msg of
        parse_failure \<Rightarrow> Inr (st, [])
      | mesh_join name type \<Rightarrow>
          (case addDeviceToMesh st m name type now addPeer of
             (True, st') \<Rightarrow> Inr (st', [MeshAck m ''joined'' (meshDeviceCount st')])
           | (False, st') \<Rightarrow> Inr (st', [MeshAck m ''failed'' (meshDeviceCount st')]))
      | mesh_ready \<Rightarrow> Inr (mark_ready st m now, [])
      | audio_data \<Rightarrow>
          (case relayAudioToMesh st m len tx of
             Inl e \<Rightarrow> Inl e
           | Inr (st', outs) \<Rightarrow> Inr (st', outs @ [AudioAck m]))
      | mesh_heartbeat \<Rightarrow> Inr (updateDeviceHeartbeat st m now, [])
      | mesh_leave \<Rightarrow> Inr (snd (removeDeviceFromMesh st m), [])
      | audio_ack \<Rightarrow> Inr (st, [])
      | other_type \<Rightarrow> Inr (st, []))"

section \<open>Hub: the accumulator and the chunk sender\<close>

text \<open>\<open>compressAudioData\<close> copies its input: the chunk's \<open>rawBuffer\<close>.\<close>

definition compressAudioData :: "bytes \<Rightarrow> nat \<Rightarrow> bytes" where
  "compressAudioData input inputLength = take inputLength input"

text \<open>The inner loop of \<open>sendAudioChunks\<close>: one \<open>esp_now_send\<close> per active entry.\<close>

definition fan_out :: "hub \<Rightarrow> bytes \<Rightarrow> hub_out list" where
  "fan_out st message = map (\<lambda>d. AudioFrame (mac d) message) (filter isActive (peers st))"

text \<open>
  The chunk loop of \<open>sendAudioChunks\<close>.  \<open>millis chunk\<close> is the clock read for that
  chunk; \<open>calculateAudioStats\<close> sets \<open>minVal\<close> and \<open>maxVal\<close> to 128; a skipped chunk
  (\<open>continue\<close>) sends nothing at all.
\<close>

function send_chunk_loop ::
    "hub \<Rightarrow> (nat \<Rightarrow> u32) \<Rightarrow> nat \<Rightarrow> nat \<Rightarrow> i32 \<Rightarrow> hub_out list \<Rightarrow> i32 \<times> hub_out list" where
  "send_chunk_loop st millis chunksToSend chunk seq outs =
     (if chunk < chunksToSend then
        let startIndex = chunk * AUDIO_CHUNK_SIZE;
            rawBuffer = compressAudioData (drop startIndex (audioBuffer st)) AUDIO_CHUNK_SIZE;
            message = compact_frame
              [seq, of_nat chunk, of_nat chunksToSend, millis chunk, 16000, 16, 128, 128] rawBuffer
        in case fit_espnow message rawBuffer of
             None \<Rightarrow> send_chunk_loop st millis chunksToSend (chunk + 1) (seq + 1) outs
           | Some message' \<Rightarrow>
               send_chunk_loop st millis chunksToSend (chunk + 1) (seq + 1)
                 (outs @ fan_out st message'
                    @ (if deviceConnected st \<and> pAudioCharacteristic st
                       then [BleNotify rawBuffer] else []))
      else (seq, outs))"
  by pat_completeness auto
termination
  by (relation "measure (\<lambda>(st, millis, chunksToSend, chunk, seq, outs). chunksToSend - chunk)")
    auto

declare send_chunk_loop.simps [simp del]

definition sendAudioChunks :: "hub \<Rightarrow> (nat \<Rightarrow> u32) \<Rightarrow> hub \<times> hub_out list" where
  "sendAudioChunks st millis =
     (if meshDeviceCount st = 0 \<and> \<not> deviceConnected st
      then (st\<lparr>audioBuffer := memset (audioBuffer st) 0 0 AUDIO_BUFFER_SIZE,
                audioBufferIndex := 0\<rparr>, [])
      else
        let chunksToSend = audioBufferIndex st div AUDIO_CHUNK_SIZE;
            sent = send_chunk_loop st millis chunksToSend 0 (audioSequenceNumber st) [];
            remainingData = audioBufferIndex st mod AUDIO_CHUNK_SIZE
        in if 0 < remainingData
           then (st\<lparr>audioSequenceNumber := fst sent,
                     audioBuffer :=
                       memset (memmove (audioBuffer st) 0 (chunksToSend * AUDIO_CHUNK_SIZE)
                                 remainingData)
                         remainingData 0 (AUDIO_BUFFER_SIZE - remainingData),
                     audioBufferIndex := remainingData\<rparr>, snd sent)
           else (st\<lparr>audioSequenceNumber := fst sent,
                     audioBuffer := memset (audioBuffer st) 0 0 AUDIO_BUFFER_SIZE,
                     audioBufferIndex := 0\<rparr>, snd sent))"

definition startAudioStream :: "hub \<Rightarrow> hub" where
  "startAudioStream st =
     (if \<not> isAudioStreaming st
      then st\<lparr>isAudioStreaming := True, audioSequenceNumber := 0, audioBufferIndex := 0\<rparr>
      else st)"

definition stopAudioStream :: "hub \<Rightarrow> hub" where
  "stopAudioStream st =
     (if isAudioStreaming st
      then st\<lparr>isAudioStreaming := False,
               audioBuffer := memset (audioBuffer st) 0 0 AUDIO_BUFFER_SIZE,
               audioBufferIndex := 0, audioSequenceNumber := 0\<rparr>
      else st)"

text \<open>The \<^verbatim>\<open>clear_buffer\<close> command of \<open>handleTestCommand\<close>.\<close>

definition clear_buffer :: "hub \<Rightarrow> hub" where
  "clear_buffer st =
     st\<lparr>audioBuffer := memset (audioBuffer st) 0 0 AUDIO_BUFFER_SIZE,
        audioBufferIndex := 0, audioSequenceNumber := 0\<rparr>"

text \<open>
  \<open>addAudioData(data, length)\<close> in its four steps.  \<open>force_send\<close> is
  \<^verbatim>\<open>if (audioBufferIndex >= AUDIO_CHUNK_SIZE) sendAudioChunks();\<close> inside the overflow
  branch; \<open>evict_oldest\<close> the second overflow test with its \<open>memmove\<close>, whose size
  \<open>audioBufferIndex - overflow\<close> is negative when \<open>length\<close> exceeds the buffer;
  \<open>append_audio\<close> the \<open>memcpy\<close> and the index update; the chunk emission closes the
  function.
\<close>

definition force_send :: "hub \<Rightarrow> (nat \<Rightarrow> u32) \<Rightarrow> hub \<times> hub_out list" where
  "force_send st millis =
     (if AUDIO_CHUNK_SIZE \<le> audioBufferIndex st then sendAudioChunks st millis else (st, []))"

definition evict_oldest :: "hub \<Rightarrow> nat \<Rightarrow> fault + hub" where
  "evict_oldest st len =
     (if AUDIO_BUFFER_SIZE < audioBufferIndex st + len then
        let overflow = audioBufferIndex st + len - AUDIO_BUFFER_SIZE
        in if audioBufferIndex st < overflow then Inl MemoryFault
           else Inr (st\<lparr>audioBuffer := memmove (audioBuffer st) 0 overflow
                                           (audioBufferIndex st - overflow),
                        audioBufferIndex := audioBufferIndex st - overflow\<rparr>)
      else Inr st)"

definition append_audio :: "hub \<Rightarrow> bytes \<Rightarrow> nat \<Rightarrow> hub" where
  "append_audio st data len =
     st\<lparr>audioBuffer := memcpy (audioBuffer st) (audioBufferIndex st) data len,
        audioBufferIndex := audioBufferIndex st + len\<rparr>"

definition store_audio ::
    "hub \<Rightarrow> bytes \<Rightarrow> nat \<Rightarrow> (nat \<Rightarrow> u32) \<Rightarrow> fault + hub \<times> hub_out list" where
  "store_audio st data len millis =
     (if AUDIO_BUFFER_SIZE < audioBufferIndex st + len then
        (case evict_oldest (fst (force_send st millis)) len of
           Inl e \<Rightarrow> Inl e
         | Inr st' \<Rightarrow> Inr (append_audio st' data len, snd (force_send st millis)))
      else Inr (append_audio st data len, []))"

definition addAudioData ::
    "hub \<Rightarrow> bytes \<Rightarrow> nat \<Rightarrow> (nat \<Rightarrow> u32) \<Rightarrow> fault + hub \<times> hub_out list" where
  "addAudioData st data len millis =
     (if \<not> isAudioStreaming st then Inr (st, [])
      else if len = 0 then Inr (st, [])
      else case store_audio st data len millis of
             Inl e \<Rightarrow> Inl e
           | Inr (st', outs) \<Rightarrow>
               if AUDIO_CHUNK_SIZE \<le> audioBufferIndex st'
               then Inr (fst (sendAudioChunks st' millis),
                         outs @ snd (sendAudioChunks st' millis))
               else Inr (st', outs))"

text \<open>The audio frames handed to the radio for one address, in order.\<close>

fun frames_to :: "bytes \<Rightarrow> hub_out list \<Rightarrow> bytes list" where
  "frames_to m [] = []"
| "frames_to m (AudioFrame m' msg # outs) =
     (if m' = m then msg # frames_to m outs else frames_to m outs)"
| "frames_to m (out # outs) = frames_to m outs"

section \<open>Hub: the steps of the main loop, the sender task and the callbacks\<close>

text \<open>
  One event per entry point: a received control message (\<open>OnDataRecv\<close>), the three
  periodic calls of \<open>loop()\<close> under \<open>meshNetworkActive\<close>, one drained GATT write
  (\<open>addAudioData(item.data, item.length)\<close>), one period of \<open>AudioSenderTask\<close>, the
  connection callbacks, the two stream commands and the \<^verbatim>\<open>clear_buffer\<close> command of
  the serial console.
\<close>

datatype hub_event =
    Recv bytes ctrl_in int u32 esp_err radio
  | HeartbeatTick radio
  | StatusTick radio
  | CleanupTick u32
  | AudioIn bytes nat "nat \<Rightarrow> u32"
  | SenderTick "nat \<Rightarrow> u32"
  | BleConnect
  | BleDisconnect
  | StartStream
  | StopStream
  | ClearBuffer

fun hub_step :: "hub_event \<Rightarrow> hub \<Rightarrow> fault + hub \<times> hub_out list" where
  "hub_step (Recv m msg len now addPeer tx) st = OnDataRecv st m msg len now addPeer tx"
| "hub_step (HeartbeatTick tx) st =
     (if meshNetworkActive st then sendMeshHeartbeat st tx else Inr (st, []))"
| "hub_step (StatusTick tx) st =
     (if meshNetworkActive st then broadcastMeshStatus st tx else Inr (st, []))"
| "hub_step (CleanupTick now) st =
     (if meshNetworkActive st then Inr (cleanupInactiveDevices st now, []) else Inr (st, []))"
| "hub_step (AudioIn data len millis) st = addAudioData st data len millis"
| "hub_step (SenderTick millis) st =
     (if isAudioStreaming st \<and> (deviceConnected st \<or> 0 < meshDeviceCount st)
      then Inr (sendAudioChunks st millis) else Inr (st, []))"
| "hub_step BleConnect st = Inr (st\<lparr>deviceConnected := True\<rparr>, [])"
| "hub_step BleDisconnect st = Inr (st\<lparr>deviceConnected := False\<rparr>, [])"
| "hub_step StartStream st = Inr (startAudioStream st, [])"
| "hub_step StopStream st = Inr (stopAudioStream st, [])"
| "hub_step ClearBuffer st = Inr (clear_buffer st, [])"

fun hub_run :: "hub_event list \<Rightarrow> hub \<Rightarrow> fault + hub \<times> hub_out list" where
  "hub_run [] st = Inr (st, [])"
| "hub_run (e # es) st =
     (case hub_step e st of
        Inl f \<Rightarrow> Inl f
      | Inr (st', outs) \<Rightarrow>
          (case hub_run es st' of
             Inl f \<Rightarrow> Inl f
           | Inr (st'', outs') \<Rightarrow> Inr (st'', outs @ outs')))"

text \<open>
  The registry as \<open>addDeviceToMesh\<close> keeps it: at most four registered entries in an
  array of four, no address registered twice.
\<close>

definition registry_ok :: "hub \<Rightarrow> bool" where
  "registry_ok st \<longleftrightarrow>
     meshDeviceCount st \<le> MAX_MESH_DEVICES \<and> length (meshDevices st) = MAX_MESH_DEVICES
     \<and> distinct (map mac (peers st))"

section \<open>Relay: the coalescer's ingestion\<close>

record coalescer =
  coalesceBuf :: bytes
  coalesceLen :: nat

text \<open>
  What \<open>bleNotifyTask\<close> does with one popped item; \<open>cap\<close> is \<open>sizeof(coalesceBuf)\<close>
  (1536 there).
\<close>

definition task_ingest :: "nat \<Rightarrow> NotifyItem \<Rightarrow> coalescer \<Rightarrow> coalescer" where
  "task_ingest cap item c =
     (if isPcm8 item \<noteq> 0 then
        let pcm16 = pcm8_to_pcm16 (take (unat (n_length item)) (n_data item)) [];
            copy = min (length pcm16) (cap - coalesceLen c)
        in c\<lparr>coalesceBuf := memcpy (coalesceBuf c) (coalesceLen c) pcm16 copy,
              coalesceLen := coalesceLen c + copy\<rparr>
      else
        let copy = min (unat (n_length item)) (cap - coalesceLen c)
        in c\<lparr>coalesceBuf := memcpy (coalesceBuf c) (coalesceLen c) (n_data item) copy,
              coalesceLen := coalesceLen c + copy\<rparr>)"

text \<open>
  What the flush block of \<open>loop()\<close> (\<open>cap\<close> 4096) and its copy at the end of
  \<open>setup()\<close> (\<open>cap\<close> 1536) do with one popped item: the branch for an item that is
  not 8-bit PCM copies \<open>silence\<close>, 240 bytes of 128.
\<close>

definition loop_ingest :: "nat \<Rightarrow> NotifyItem \<Rightarrow> coalescer \<Rightarrow> coalescer" where
  "loop_ingest cap item c =
     (if isPcm8 item \<noteq> 0 then
        let pcm16 = pcm8_to_pcm16 (take (unat (n_length item)) (n_data item)) [];
            copy = min (length pcm16) (cap - coalesceLen c)
        in c\<lparr>coalesceBuf := memcpy (coalesceBuf c) (coalesceLen c) pcm16 copy,
              coalesceLen := coalesceLen c + copy\<rparr>
      else
        let silence = replicate 240 (128 :: u8);
            copy = min (length silence) (cap - coalesceLen c)
        in c\<lparr>coalesceBuf := memcpy (coalesceBuf c) (coalesceLen c) silence copy,
              coalesceLen := coalesceLen c + copy\<rparr>)"

text \<open>What the coalescing buffer holds: its first \<open>coalesceLen\<close> bytes.\<close>

definition coalesced :: "coalescer \<Rightarrow> bytes" where
  "coalesced c = take (coalesceLen c) (coalesceBuf c)"

section \<open>Hub: relations between states\<close>

text \<open>
  \<open>same_rest\<close>: everything but the registry is the same in both states.
  \<open>shrinks\<close>: the second state's registry is a registry as \<open>addDeviceToMesh\<close> keeps
  it, holds only peers of the first and still holds every peer of the first that is not
  active.
\<close>

definition same_rest :: "hub \<Rightarrow> hub \<Rightarrow> bool" where
  "same_rest st st' \<longleftrightarrow>
     meshNetworkActive st' = meshNetworkActive st \<and> isAudioStreaming st' = isAudioStreaming st
     \<and> deviceConnected st' = deviceConnected st
     \<and> pAudioCharacteristic st' = pAudioCharacteristic st
     \<and> audioBuffer st' = audioBuffer st \<and> audioBufferIndex st' = audioBufferIndex st
     \<and> audioSequenceNumber st' = audioSequenceNumber st"

definition shrinks :: "hub \<Rightarrow> hub \<Rightarrow> bool" where
  "shrinks st st' \<longleftrightarrow>
     registry_ok st' \<and> same_rest st st' \<and> set (peers st') \<subseteq> set (peers st)
     \<and> (\<forall>d \<in> set (peers st). \<not> isActive d \<longrightarrow> d \<in> set (peers st'))"

text \<open>
  A peer with address \<open>m\<close> that has joined and is not active yet; an address that is
  registered; a message received from address \<open>m\<close>.
\<close>

definition waiting :: "bytes \<Rightarrow> hub \<Rightarrow> bool" where
  "waiting m st \<longleftrightarrow> (\<exists>d \<in> set (peers st). mac d = m \<and> \<not> isActive d)"

definition registered :: "bytes \<Rightarrow> hub \<Rightarrow> bool" where
  "registered m st \<longleftrightarrow> m \<in> set (map mac (peers st))"

fun from_mac :: "bytes \<Rightarrow> hub_event \<Rightarrow> bool" where
  "from_mac m (Recv m' msg len now addPeer tx) = (m' = m)"
| "from_mac m e = False"

text \<open>
  \<open>undisturbed m\<close>: a peer with address \<open>m\<close> that is waiting stays as it is, and an
  address that is not registered stays unregistered.  \<open>same_registry\<close>: the registry
  array and the count are the same.
\<close>

definition undisturbed :: "bytes \<Rightarrow> hub \<Rightarrow> hub \<Rightarrow> bool" where
  "undisturbed m st st' \<longleftrightarrow>
     registry_ok st'
     \<and> (\<forall>d \<in> set (peers st). mac d = m \<and> \<not> isActive d \<longrightarrow> d \<in> set (peers st'))
     \<and> (\<not> registered m st \<longrightarrow> \<not> registered m st')"

definition same_registry :: "hub \<Rightarrow> hub \<Rightarrow> bool" where
  "same_registry st st' \<longleftrightarrow>
     meshDevices st' = meshDevices st \<and> meshDeviceCount st' = meshDeviceCount st"

text \<open>
  The accumulator: \<open>audioBuffer\<close> has its declared size and the cursor is inside it;
  \<open>buffered\<close> are the bytes below the cursor.  \<open>flushed\<close> is the state in which
  \<open>addAudioData\<close> makes its second overflow test: after the forced
  \<open>sendAudioChunks\<close> when the first test found too little room, the state itself
  otherwise.
\<close>

definition accumulator_ok :: "hub \<Rightarrow> bool" where
  "accumulator_ok st \<longleftrightarrow>
     length (audioBuffer st) = AUDIO_BUFFER_SIZE \<and> audioBufferIndex st \<le> AUDIO_BUFFER_SIZE"

definition buffered :: "hub \<Rightarrow> bytes" where
  "buffered st = take (audioBufferIndex st) (audioBuffer st)"

definition flushed :: "hub \<Rightarrow> nat \<Rightarrow> (nat \<Rightarrow> u32) \<Rightarrow> hub" where
  "flushed st len millis =
     (if AUDIO_BUFFER_SIZE < audioBufferIndex st + len then fst (force_send st millis) else st)"

text \<open>The steps that call into the accumulator.\<close>

fun accumulator_event :: "hub_event \<Rightarrow> bool" where
  "accumulator_event (AudioIn data len millis) = True"
| "accumulator_event (SenderTick millis) = True"
| "accumulator_event StartStream = True"
| "accumulator_event StopStream = True"
| "accumulator_event ClearBuffer = True"
| "accumulator_event e = False"

section \<open>Example states\<close>

text \<open>
  A transport that accepts every request, and registries used to run the theorems on
  concrete inputs: \<open>example_registry\<close> holds an active and a not yet ready peer,
  \<open>full_registry\<close> holds four peers.
\<close>

definition radio_ok :: radio where
  "radio_ok k = (ESP_OK, ESP_OK)"

definition example_peer :: "u8 \<Rightarrow> bool \<Rightarrow> u32 \<Rightarrow> MeshDevice" where
  "example_peer b active seen =
     \<lparr>mac = [0x10, 0x00, 0x3B, 0x48, 0x1A, b], deviceName = ''ESP32S3_Audio_Client'',
      deviceType = ''ESP32_Audio_Client'', lastSeen = seen, isActive = active,
      isCoordinator = False, audioQuality = 100\<rparr>"

definition example_hub :: "MeshDevice list \<Rightarrow> nat \<Rightarrow> hub" where
  "example_hub devs n =
     \<lparr>meshDevices = devs, meshDeviceCount = n, meshNetworkActive = True,
      isAudioStreaming = True, deviceConnected = True, pAudioCharacteristic = True,
      audioBuffer = replicate 1024 0, audioBufferIndex = 0, audioSequenceNumber = 0\<rparr>"

definition example_registry :: hub where
  "example_registry =
     example_hub [example_peer 1 True 0, example_peer 2 False 0,
                  example_peer 3 False 0, example_peer 4 False 0] 2"

definition full_registry :: hub where
  "full_registry =
     example_hub [example_peer 1 True 0, example_peer 2 False 0,
                  example_peer 3 True 0, example_peer 4 False 0] 4"

text \<open>
  A streaming Hub with 150 bytes buffered, with the peers of \<open>example_registry\<close> and
  a BLE client, and the same accumulator with no peer registered and no client connected.
\<close>

definition example_accumulator :: hub where
  "example_accumulator =
     example_registry\<lparr>audioBuffer := replicate 150 1 @ replicate 874 0, audioBufferIndex := 150\<rparr>"

definition unattended_hub :: hub where
  "unattended_hub =
     (example_hub (meshDevices example_registry) 0)
       \<lparr>deviceConnected := False, audioBuffer := replicate 150 1 @ replicate 874 0,
        audioBufferIndex := 150\<rparr>"

text \<open>
  Relay: a coalescing buffer of \<open>cap\<close> bytes holding nothing, the item a consumer
  declares before it pops, and an item carrying the four bytes 1, 2, 3, 4 as 16-bit PCM.
\<close>

definition empty_coalescer :: "nat \<Rightarrow> coalescer" where
  "empty_coalescer cap = \<lparr>coalesceBuf = replicate cap 0, coalesceLen = 0\<rparr>"

definition blank_item :: NotifyItem where
  "blank_item = \<lparr>n_length = 0, n_data = replicate 512 0, isPcm8 = 0\<rparr>"

definition raw_item :: NotifyItem where
  "raw_item = \<lparr>n_length = 4, n_data = [1, 2, 3, 4] @ replicate 508 0, isPcm8 = 0\<rparr>"

text \<open>
  A clock that has run for more than \<open>2^31\<close> milliseconds (24.9 days):
  \<open>millis()\<close> returns 3000000000.
\<close>

definition late_clock :: "nat \<Rightarrow> u32" where
  "late_clock chunk = 3000000000"

text \<open>
  Relay: the queue after \<^verbatim>\<open>notifyQueuePushFromISR(pcm8, 3, 1)\<close> of the 8-bit samples
  0, 128, 255 into the queue of \<open>setup()\<close>, and the item a consumer then pops into
  its local item.
\<close>

definition legacy_queue :: notify_ring where
  "legacy_queue = snd (notifyQueuePushFromISR [0, 128, 255] 3 1 notify_init)"

definition legacy_item :: NotifyItem where
  "legacy_item = fst (snd (notifyQueuePop blank_item legacy_queue))"

section \<open>Reading a ring of slots\<close>

text \<open>
  The slots a consumer will see, oldest first, for a ring of \<open>n\<close> slots with producer
  index \<open>h\<close> and consumer index \<open>t\<close>.
\<close>

definition ring_count :: "nat \<Rightarrow> nat \<Rightarrow> nat \<Rightarrow> nat" where
  "ring_count n h t = (h + n - t) mod n"

definition ring_view :: "nat \<Rightarrow> nat \<Rightarrow> nat \<Rightarrow> 'a list \<Rightarrow> 'a list" where
  "ring_view n h t xs = map (\<lambda>i. xs ! ((t + i) mod n)) [0..<ring_count n h t]"

definition bleIn_ok :: "ble_in \<Rightarrow> bool" where
  "bleIn_ok q \<longleftrightarrow> unat (bleInHead q) < 16 \<and> unat (bleInTail q) < 16
     \<and> length (bleInQueue q) = 16
     \<and> (\<forall>s \<in> set (bleInQueue q). unat (item_length s) \<le> length (item_data s))"

definition bleIn_view :: "ble_in \<Rightarrow> bytes list" where
  "bleIn_view q =
     ring_view 16 (unat (bleInHead q)) (unat (bleInTail q)) (map item_payload (bleInQueue q))"

definition notify_ok :: "notify_ring \<Rightarrow> bool" where
  "notify_ok q \<longleftrightarrow> unat (notifyHead q) < 64 \<and> unat (notifyTail q) < 64
     \<and> length (notifyQueue q) = 64
     \<and> (\<forall>s \<in> set (notifyQueue q). unat (n_length s) \<le> length (n_data s))"

definition notify_view :: "notify_ring \<Rightarrow> bytes list" where
  "notify_view q =
     ring_view 64 (unat (notifyHead q)) (unat (notifyTail q)) (map notify_payload (notifyQueue q))"

section \<open>Properties of the legacy conversion\<close>

lemma ucast_32_16_of_int: "(ucast (word_of_int k :: i32) :: u16) = word_of_int k"
  by transfer simp

lemma upsample_word: "upsample_s16 s8 = word_of_int ((uint s8 - 128) * 256)"
proof -
  have "(ucast s8 :: i32) - 128 = word_of_int (uint s8 - 128)"
    by (simp only: ucast_eq of_int_diff of_int_numeral)
  then have "push_bit 8 ((ucast s8 :: i32) - 128) = word_of_int ((uint s8 - 128) * 256)"
    by (simp add: push_bit_eq_mult)
  then show ?thesis
    by (simp only: upsample_s16_def ucast_32_16_of_int)
qed

lemma uint_u8_range: "0 \<le> uint (s8 :: u8) \<and> uint s8 < 256"
  using uint_lt2p [of s8] by simp

lemma sint_u16_of_int:
  "- (2 ^ 15) \<le> k \<Longrightarrow> k < 2 ^ 15 \<Longrightarrow> sint (word_of_int k :: u16) = k"
  by (simp add: sint_sbintrunc' signed_take_bit_int_eq_self)

lemma sint_upsample: "sint (upsample_s16 s8) = (uint s8 - 128) * 256"
proof -
  have r: "- (2 ^ 15) \<le> (uint s8 - 128) * 256 \<and> (uint s8 - 128) * 256 < 2 ^ 15"
    using uint_u8_range [of s8] by simp
  show ?thesis
    unfolding upsample_word
    using r by (simp only: sint_u16_of_int)
qed

lemma ff_mask: "(0xFF :: i32) = mask 8"
  by (simp add: mask_eq_exp_minus_1)

lemma cat_hi_lo: "(word_cat (s16_hi w) (s16_lo w) :: u16) = w"
  unfolding s16_hi_def s16_lo_def ff_mask
  by (rule bit_word_eqI) (auto simp add: bit_simps)

lemma pcm8_to_pcm16_fits:
  "length pcm16 + 2 * length samples \<le> 512 \<Longrightarrow>
   pcm8_to_pcm16 samples pcm16 =
     pcm16 @ concat (map (\<lambda>s. [s16_lo (upsample_s16 s), s16_hi (upsample_s16 s)]) samples)"
  by (induction samples arbitrary: pcm16) auto

text \<open>
  The conversion by itself.  Every legacy sample byte \<open>s8\<close> becomes the 16-bit sample
  \<open>(s8 - 128) << 8\<close>, that is \<open>(s8 - 128) * 256\<close> read as a signed 16-bit value;
  byte 0 gives -32768, byte 128 gives 0, byte 255 gives 32512.  The conversion loop
  emits, for an item of at most 256 samples, the low and the high byte of that sample
  for every input byte, in order, and the two bytes put together are the sample.
\<close>

theorem legacy8_upsample:
  "sint (upsample_s16 s8) = (uint s8 - 128) * 2 ^ 8
   \<and> sint (upsample_s16 0) = - 32768
   \<and> sint (upsample_s16 128) = 0
   \<and> sint (upsample_s16 255) = 32512
   \<and> (word_cat (s16_hi (upsample_s16 s8)) (s16_lo (upsample_s16 s8)) :: u16) = upsample_s16 s8
   \<and> (length samples \<le> 256 \<longrightarrow>
        pcm8_to_pcm16 samples [] =
          concat (map (\<lambda>s. [s16_lo (upsample_s16 s), s16_hi (upsample_s16 s)]) samples))"
proof -
  have a: "sint (upsample_s16 s8) = (uint s8 - 128) * 2 ^ 8"
    by (simp add: sint_upsample)
  have b: "sint (upsample_s16 0) = - 32768"
    by (simp add: sint_upsample)
  have c: "sint (upsample_s16 128) = 0"
    by (simp add: sint_upsample)
  have d: "sint (upsample_s16 255) = 32512"
    by (simp add: sint_upsample)
  have e: "length samples \<le> 256 \<longrightarrow>
        pcm8_to_pcm16 samples [] =
          concat (map (\<lambda>s. [s16_lo (upsample_s16 s), s16_hi (upsample_s16 s)]) samples)"
    using pcm8_to_pcm16_fits [of "[]" samples] by simp
  from a b c d e show ?thesis
    by (simp only: cat_hi_lo simp_thms)
qed

theorem legacy8_upsample_witness:
  "length [0, 128, 255 :: u8] \<le> 256
   \<and> pcm8_to_pcm16 [0, 128, 255] [] = [0, 128, 0, 0, 0, 127]
   \<and> sint (upsample_s16 255) = 32512"
proof -
  have "pcm8_to_pcm16 [0, 128, 255] [] =
     concat (map (\<lambda>s. [s16_lo (upsample_s16 s), s16_hi (upsample_s16 s)]) [0, 128, 255])"
    using legacy8_upsample [of 255 "[0, 128, 255]"] by simp
  also have "\<dots> = [0, 128, 0, 0, 0, 127]"
    by (simp add: upsample_s16_def s16_lo_def s16_hi_def)
  finally show ?thesis
    using legacy8_upsample [of 255 "[0, 128, 255]"] by simp
qed

section \<open>Ring queues: index arithmetic\<close>

lemma mask_0F: "(0x0F :: u16) = mask 4"
  by (simp add: mask_eq_exp_minus_1)
lemma mask_3F: "(63 :: u16) = mask 6"
  by (simp add: mask_eq_exp_minus_1)

lemma unat_and_mask_u16: "unat ((w :: u16) AND mask k) = unat w mod 2 ^ k"
proof -
  have "unat (take_bit k w) = take_bit k (unat w)"
    by (rule unsigned_take_bit_eq)
  moreover have "take_bit k w = w AND mask k"
    by (rule take_bit_eq_mask)
  moreover have "take_bit k (unat w) = unat w mod 2 ^ k"
    by (rule take_bit_eq_mod)
  ultimately show ?thesis
    by simp
qed

lemma unat_next_index:
  assumes "k \<le> 16"
  shows "unat (((w :: u16) + 1) AND mask k) = (unat w + 1) mod 2 ^ k"
proof -
  have "(2::nat) ^ k dvd 2 ^ 16" using assms by (rule le_imp_power_dvd)
  then have "(unat w + 1) mod 2 ^ 16 mod 2 ^ k = (unat w + 1) mod 2 ^ k"
    by (rule mod_mod_cancel)
  moreover have "unat (w + 1) = (unat w + 1) mod 2 ^ 16"
    by (simp add: unat_word_ariths)
  ultimately show ?thesis
    by (simp only: unat_and_mask_u16)
qed

lemma mod_twice: "a < 2 * n \<Longrightarrow> a mod n = (if a < n then a else a - n)" for a n :: nat
  by (simp add: le_mod_geq)

lemma ring_count_alt:
  "h < n \<Longrightarrow> t < n \<Longrightarrow> ring_count n h t = (if t \<le> h then h - t else h + n - t)"
  by (simp add: ring_count_def mod_twice)

lemma ring_next_alt: "h < n \<Longrightarrow> Suc h mod n = (if Suc h = n then 0 else Suc h)" for h n :: nat
  by (simp add: mod_twice)

lemma ring_count_push:
  assumes "h < n" "t < n" "Suc h mod n \<noteq> t"
  shows "ring_count n (Suc h mod n) t = Suc (ring_count n h t)"
proof -
  have "Suc h mod n < n" using assms by simp
  then show ?thesis
    using assms by (simp add: ring_count_alt) (auto simp add: ring_next_alt split: if_splits)
qed

lemma ring_count_lt: "h < n \<Longrightarrow> t < n \<Longrightarrow> ring_count n h t < n"
  by (simp add: ring_count_def)

lemma ring_slot_of_count:
  assumes "h < n" "t < n"
  shows "(t + ring_count n h t) mod n = h"
  using assms by (simp add: ring_count_alt mod_twice)

lemma ring_slot_below_count:
  assumes "h < n" "t < n" "i < ring_count n h t"
  shows "(t + i) mod n \<noteq> h"
  using assms by (auto simp add: ring_count_alt mod_twice split: if_splits)

lemma ring_view_push:
  assumes "h < n" "t < n" "length xs = n" "Suc h mod n \<noteq> t"
  shows "ring_view n (Suc h mod n) t (xs[h := s]) = ring_view n h t xs @ [s]"
proof -
  have old: "map (\<lambda>i. xs[h := s] ! ((t + i) mod n)) [0..<ring_count n h t]
           = map (\<lambda>i. xs ! ((t + i) mod n)) [0..<ring_count n h t]"
  proof (rule map_cong [OF refl])
    fix i assume "i \<in> set [0..<ring_count n h t]"
    then have "(t + i) mod n \<noteq> h"
      using assms ring_slot_below_count [of h n t i] by simp
    then show "xs[h := s] ! ((t + i) mod n) = xs ! ((t + i) mod n)"
      by simp
  qed
  have new: "xs[h := s] ! ((t + ring_count n h t) mod n) = s"
    using assms by (simp add: ring_slot_of_count)
  show ?thesis
    unfolding ring_view_def ring_count_push [OF assms(1,2,4)]
    using old new by simp
qed

lemma ring_count_pop:
  assumes "h < n" "t < n" "t \<noteq> h"
  shows "ring_count n h t = Suc (ring_count n h (Suc t mod n))"
proof -
  have "Suc t mod n < n" using assms by simp
  then show ?thesis
    using assms by (simp add: ring_count_alt) (auto simp add: ring_next_alt split: if_splits)
qed

lemma ring_view_pop:
  assumes "h < n" "t < n" "t \<noteq> h"
  shows "ring_view n h t xs = xs ! t # ring_view n h (Suc t mod n) xs"
proof -
  have idx: "(Suc t mod n + i) mod n = Suc (t + i) mod n" for i
    by (metis add_Suc mod_add_left_eq)
  have "[0..<Suc (ring_count n h (Suc t mod n))] = 0 # map Suc [0..<ring_count n h (Suc t mod n)]"
    by (simp add: upt_conv_Cons map_Suc_upt del: upt_Suc)
  then show ?thesis
    unfolding ring_view_def ring_count_pop [OF assms]
    using assms by (simp add: idx comp_def del: upt_Suc)
qed

lemma ring_count_full:
  assumes "h < n" "t < n" 
  shows "Suc h mod n = t \<longleftrightarrow> ring_count n h t = n - 1"
  using assms by (auto simp add: ring_count_alt ring_next_alt split: if_splits)

lemma ring_count_empty:
  assumes "h < n" "t < n"
  shows "t = h \<longleftrightarrow> ring_count n h t = 0"
  using assms by (auto simp add: ring_count_alt split: if_splits)

lemma length_ring_view: "length (ring_view n h t xs) = ring_count n h t"
  by (simp add: ring_view_def)

lemma idx16: "unat (w AND (0x0F :: u16)) = unat w mod 16"
  using unat_and_mask_u16 [of w 4] by (simp add: mask_0F)

lemma next16: "unat ((w + 1) AND (0x0F :: u16)) = Suc (unat w) mod 16"
  using unat_next_index [of 4 w] by (simp add: mask_0F)

lemma memcpy0_take: "n \<le> length src \<Longrightarrow> take n (memcpy dst 0 src n) = take n src"
  by (simp add: memcpy_def)

lemma bleIn_view_length: "bleIn_ok q \<Longrightarrow> length (bleIn_view q) < 16"
  by (simp add: bleIn_view_def ring_view_def bleIn_ok_def ring_count_lt)

lemma bleIn_full_iff:
  "bleIn_ok q \<Longrightarrow> (bleInHead q + 1) AND 0x0F = bleInTail q \<longleftrightarrow> length (bleIn_view q) = 15"
proof -
  assume ok: "bleIn_ok q"
  have "(bleInHead q + 1) AND 0x0F = bleInTail q
        \<longleftrightarrow> unat ((bleInHead q + 1) AND 0x0F) = unat (bleInTail q)"
    by (simp add: word_unat_eq_iff)
  also have "\<dots> \<longleftrightarrow> Suc (unat (bleInHead q)) mod 16 = unat (bleInTail q)"
    by (simp only: next16)
  also have "\<dots> \<longleftrightarrow> ring_count 16 (unat (bleInHead q)) (unat (bleInTail q)) = 16 - 1"
    using ok by (intro ring_count_full) (simp_all add: bleIn_ok_def)
  finally show ?thesis
    by (simp add: bleIn_view_def ring_view_def)
qed

lemma bleIn_push_full:
  "bleIn_ok q \<Longrightarrow> length (bleIn_view q) = 15 \<Longrightarrow> bleInPushFromISR buf len q = (False, q)"
  by (simp add: bleInPushFromISR_def Let_def bleIn_full_iff)

lemma bleIn_push_room:
  assumes ok: "bleIn_ok q" and room: "length (bleIn_view q) \<noteq> 15"
    and len: "unat len \<le> length buf" "len \<le> 256"
  shows "\<exists>q'. bleInPushFromISR buf len q = (True, q') \<and> bleIn_ok q'
            \<and> bleIn_view q' = bleIn_view q @ [take (unat len) buf]"
proof -
  let ?h = "unat (bleInHead q)" and ?t = "unat (bleInTail q)"
  let ?slot = "bleInQueue q ! ?h"
  let ?slot' = "?slot\<lparr>item_length := len, item_data := memcpy (item_data ?slot) 0 buf (unat len)\<rparr>"
  let ?q' = "q\<lparr>bleInQueue := (bleInQueue q)[?h := ?slot'], bleInHead := (bleInHead q + 1) AND 0x0F\<rparr>"
  have h: "?h < 16" and t: "?t < 16" and n: "length (bleInQueue q) = 16"
    using ok by (simp_all add: bleIn_ok_def)
  have notfull: "(bleInHead q + 1) AND 0x0F \<noteq> bleInTail q"
    using ok room by (simp add: bleIn_full_iff)
  then have nf: "Suc ?h mod 16 \<noteq> ?t"
    by (metis next16 word_unat_eq_iff)
  have i: "unat (bleInHead q AND 0x0F) = ?h"
    using h by (simp add: idx16)
  have "\<not> 256 < len" using len(2) by simp
  then have run: "bleInPushFromISR buf len q = (True, ?q')"
    using notfull by (simp add: bleInPushFromISR_def Let_def i)
  have "unat (item_length ?slot') \<le> length (item_data ?slot')"
    using len(1) by (simp add: memcpy_def)
  then have "\<forall>s \<in> set ((bleInQueue q)[?h := ?slot']). unat (item_length s) \<le> length (item_data s)"
    using ok by (auto simp add: bleIn_ok_def dest!: set_update_subset_insert [THEN subsetD])
  then have ok': "bleIn_ok ?q'"
    using ok by (simp add: bleIn_ok_def next16)
  have pay: "item_payload ?slot' = take (unat len) buf"
    using len(1) by (simp add: item_payload_def memcpy0_take)
  have "bleIn_view ?q' = ring_view 16 (Suc ?h mod 16) ?t ((map item_payload (bleInQueue q))[?h := take (unat len) buf])"
    by (simp add: bleIn_view_def next16 map_update pay)
  also have "\<dots> = bleIn_view q @ [take (unat len) buf]"
    unfolding bleIn_view_def using h t n nf by (intro ring_view_push) simp_all
  finally show ?thesis
    using run ok' by blast
qed

lemma bleIn_pop_empty:
  "bleIn_ok q \<Longrightarrow> bleIn_view q = [] \<Longrightarrow> bleInPop out q = (False, out, q)"
proof -
  assume ok: "bleIn_ok q" and e: "bleIn_view q = []"
  have "ring_count 16 (unat (bleInHead q)) (unat (bleInTail q)) = 0"
    using e by (simp add: bleIn_view_def ring_view_def)
  then have "unat (bleInTail q) = unat (bleInHead q)"
    using ok ring_count_empty [of "unat (bleInHead q)" 16 "unat (bleInTail q)"]
    by (simp add: bleIn_ok_def)
  then have "bleInTail q = bleInHead q"
    by (simp add: word_unat_eq_iff)
  then show ?thesis
    by (simp add: bleInPop_def)
qed

lemma bleIn_pop_item:
  assumes ok: "bleIn_ok q" and v: "bleIn_view q = x # xs"
  shows "\<exists>out' q'. bleInPop out q = (True, out', q') \<and> bleIn_ok q'
            \<and> item_payload out' = x \<and> bleIn_view q' = xs"
proof -
  let ?h = "unat (bleInHead q)" and ?t = "unat (bleInTail q)"
  let ?slot = "bleInQueue q ! ?t"
  let ?out' = "out\<lparr>item_length := item_length ?slot,
                   item_data := memcpy (item_data out) 0 (item_data ?slot) (unat (item_length ?slot))\<rparr>"
  let ?q' = "q\<lparr>bleInTail := (bleInTail q + 1) AND 0x0F\<rparr>"
  have h: "?h < 16" and t: "?t < 16" and n: "length (bleInQueue q) = 16"
    using ok by (simp_all add: bleIn_ok_def)
  have "ring_count 16 ?h ?t \<noteq> 0"
    using v length_ring_view [of 16 ?h ?t "map item_payload (bleInQueue q)"]
    by (simp add: bleIn_view_def)
  then have ne: "?t \<noteq> ?h"
    using h t ring_count_empty [of ?h 16 ?t] by simp
  then have ne': "bleInTail q \<noteq> bleInHead q"
    by auto
  have i: "unat (bleInTail q AND 0x0F) = ?t"
    using t by (simp add: idx16)
  have run: "bleInPop out q = (True, ?out', ?q')"
    using ne' by (simp add: bleInPop_def Let_def i)
  have ok': "bleIn_ok ?q'"
    using ok by (simp add: bleIn_ok_def next16)
  have split: "bleIn_view q = item_payload ?slot # bleIn_view ?q'"
    unfolding bleIn_view_def using h t ne n
    by (simp add: ring_view_pop [of ?h 16 ?t] next16)
  have "?slot \<in> set (bleInQueue q)"
    using t n by simp
  then have "unat (item_length ?slot) \<le> length (item_data ?slot)"
    using ok by (simp add: bleIn_ok_def)
  then have pay: "item_payload ?out' = item_payload ?slot"
    by (simp add: item_payload_def memcpy0_take)
  show ?thesis
    using run ok' split pay v by auto
qed


lemma u16_of_len: "n \<le> 256 \<Longrightarrow> unat (of_nat n :: u16) = n"
  by (simp add: unat_of_nat)

lemma u16_of_len_le: "n \<le> 256 \<Longrightarrow> (of_nat n :: u16) \<le> 256"
  by (simp add: word_le_nat_alt u16_of_len)

lemma bleIn_push_all_spec:
  assumes "bleIn_ok q" "\<forall>b \<in> set bufs. length b \<le> 256"
  shows "\<exists>q'. bleIn_push_all bufs q =
            (replicate (min (length bufs) (15 - length (bleIn_view q))) True
               @ replicate (length bufs - (15 - length (bleIn_view q))) False, q')
          \<and> bleIn_ok q'
          \<and> bleIn_view q' = bleIn_view q @ take (15 - length (bleIn_view q)) bufs"
  using assms
proof (induction bufs arbitrary: q)
  case Nil
  then show ?case by simp
next
  case (Cons b bufs)
  have lb: "length b \<le> 256" using Cons.prems(2) by simp
  have le15: "length (bleIn_view q) \<le> 15"
    using bleIn_view_length [OF Cons.prems(1)] by simp
  show ?case
  proof (cases "length (bleIn_view q) = 15")
    case True
    have p: "bleInPushFromISR b (of_nat (length b)) q = (False, q)"
      using Cons.prems(1) True by (rule bleIn_push_full)
    obtain q' where q': "bleIn_push_all bufs q =
            (replicate (min (length bufs) (15 - length (bleIn_view q))) True
               @ replicate (length bufs - (15 - length (bleIn_view q))) False, q')"
          "bleIn_ok q'" "bleIn_view q' = bleIn_view q @ take (15 - length (bleIn_view q)) bufs"
      using Cons.IH [of q] Cons.prems by auto
    show ?thesis
      using p q' True by simp
  next
    case False
    obtain q1 where q1: "bleInPushFromISR b (of_nat (length b)) q = (True, q1)"
        "bleIn_ok q1" "bleIn_view q1 = bleIn_view q @ [b]"
      using bleIn_push_room [OF Cons.prems(1) False, of "of_nat (length b)" b] lb
      by (auto simp add: u16_of_len u16_of_len_le)
    obtain q' where q': "bleIn_push_all bufs q1 =
            (replicate (min (length bufs) (15 - length (bleIn_view q1))) True
               @ replicate (length bufs - (15 - length (bleIn_view q1))) False, q')"
          "bleIn_ok q'" "bleIn_view q' = bleIn_view q1 @ take (15 - length (bleIn_view q1)) bufs"
      using Cons.IH [of q1] q1(2) Cons.prems(2) by auto
    have l1: "length (bleIn_view q1) = Suc (length (bleIn_view q))"
      using q1(3) by simp
    have d: "15 - length (bleIn_view q) = Suc (15 - length (bleIn_view q1))"
      using l1 le15 False by simp
    show ?thesis
      using q1 q' by (simp add: d l1)
  qed
qed

lemma bleIn_pop_n_spec:
  assumes "bleIn_ok q"
  shows "\<exists>q'. bleIn_pop_n m item q =
            (map Some (take m (bleIn_view q)) @ replicate (m - length (bleIn_view q)) None, q')
          \<and> bleIn_ok q' \<and> bleIn_view q' = drop m (bleIn_view q)"
  using assms
proof (induction m arbitrary: q item)
  case 0
  then show ?case by simp
next
  case (Suc m)
  show ?case
  proof (cases "bleIn_view q")
    case Nil
    have p: "bleInPop item q = (False, item, q)"
      using Suc.prems Nil by (rule bleIn_pop_empty)
    obtain q' where q': "bleIn_pop_n m item q =
            (map Some (take m (bleIn_view q)) @ replicate (m - length (bleIn_view q)) None, q')"
          "bleIn_ok q'" "bleIn_view q' = drop m (bleIn_view q)"
      using Suc.IH [of q item] Suc.prems by auto
    show ?thesis
      using p q' Nil by simp
  next
    case (Cons x xs)
    obtain out' q1 where q1: "bleInPop item q = (True, out', q1)" "bleIn_ok q1"
        "item_payload out' = x" "bleIn_view q1 = xs"
      using bleIn_pop_item [OF Suc.prems Cons, of item] by auto
    obtain q' where q': "bleIn_pop_n m out' q1 =
            (map Some (take m (bleIn_view q1)) @ replicate (m - length (bleIn_view q1)) None, q')"
          "bleIn_ok q'" "bleIn_view q' = drop m (bleIn_view q1)"
      using Suc.IH [of q1 out'] q1(2) by auto
    show ?thesis
      using q1 q' Cons by simp
  qed
qed

lemma bleIn_init_ok: "bleIn_ok bleIn_init"
  by (simp add: bleIn_ok_def bleIn_init_def)

lemma bleIn_init_view: "bleIn_view bleIn_init = []"
  by (simp add: bleIn_view_def bleIn_init_def ring_view_def ring_count_def)

lemma bleIn_fifo:
  assumes "\<forall>b \<in> set bufs. length b \<le> 256"
  shows "fst (bleIn_push_all bufs bleIn_init) =
           replicate (min (length bufs) 15) True @ replicate (length bufs - 15) False
    \<and> fst (bleIn_pop_n m item (snd (bleIn_push_all bufs bleIn_init))) =
           map Some (take m (take 15 bufs)) @ replicate (m - min (length bufs) 15) None"
proof -
  obtain q1 where q1: "bleIn_push_all bufs bleIn_init =
            (replicate (min (length bufs) 15) True @ replicate (length bufs - 15) False, q1)"
          "bleIn_ok q1" "bleIn_view q1 = take 15 bufs"
    using bleIn_push_all_spec [OF bleIn_init_ok assms] by (auto simp add: bleIn_init_view)
  obtain q2 where q2: "bleIn_pop_n m item q1 =
            (map Some (take m (bleIn_view q1)) @ replicate (m - length (bleIn_view q1)) None, q2)"
    using bleIn_pop_n_spec [OF q1(2), of m item] by auto
  show ?thesis
    using q1 q2 by simp
qed


lemma idx64: "unat (w AND (63 :: u16)) = unat w mod 64"
  using unat_and_mask_u16 [of w 6] by (simp add: mask_3F)

lemma next64: "unat ((w + 1) AND (63 :: u16)) = Suc (unat w) mod 64"
  using unat_next_index [of 6 w] by (simp add: mask_3F)


lemma notify_view_length: "notify_ok q \<Longrightarrow> length (notify_view q) < 64"
  by (simp add: notify_view_def ring_view_def notify_ok_def ring_count_lt)

lemma notify_full_iff:
  "notify_ok q \<Longrightarrow> (notifyHead q + 1) AND 63 = notifyTail q \<longleftrightarrow> length (notify_view q) = 63"
proof -
  assume ok: "notify_ok q"
  have "(notifyHead q + 1) AND 63 = notifyTail q
        \<longleftrightarrow> unat ((notifyHead q + 1) AND 63) = unat (notifyTail q)"
    by (simp add: word_unat_eq_iff)
  also have "\<dots> \<longleftrightarrow> Suc (unat (notifyHead q)) mod 64 = unat (notifyTail q)"
    by (simp only: next64)
  also have "\<dots> \<longleftrightarrow> ring_count 64 (unat (notifyHead q)) (unat (notifyTail q)) = 64 - 1"
    using ok by (intro ring_count_full) (simp_all add: notify_ok_def)
  finally show ?thesis
    by (simp add: notify_view_def ring_view_def)
qed

lemma notify_push_full:
  "notify_ok q \<Longrightarrow> length (notify_view q) = 63 \<Longrightarrow> notifyQueuePushFromISR buf len pcm8 q = (False, q)"
  by (simp add: notifyQueuePushFromISR_def Let_def notify_full_iff)

lemma notify_push_room:
  assumes ok: "notify_ok q" and room: "length (notify_view q) \<noteq> 63"
    and len: "unat len \<le> length buf" "len \<le> 256"
  shows "\<exists>q'. notifyQueuePushFromISR buf len pcm8 q = (True, q') \<and> notify_ok q'
            \<and> notify_view q' = notify_view q @ [take (unat len) buf]"
proof -
  let ?h = "unat (notifyHead q)" and ?t = "unat (notifyTail q)"
  let ?slot = "notifyQueue q ! ?h"
  let ?slot' = "?slot\<lparr>n_length := len, n_data := memcpy (n_data ?slot) 0 buf (unat len), isPcm8 := pcm8\<rparr>"
  let ?q' = "q\<lparr>notifyQueue := (notifyQueue q)[?h := ?slot'], notifyHead := (notifyHead q + 1) AND 63\<rparr>"
  have h: "?h < 64" and t: "?t < 64" and n: "length (notifyQueue q) = 64"
    using ok by (simp_all add: notify_ok_def)
  have notfull: "(notifyHead q + 1) AND 63 \<noteq> notifyTail q"
    using ok room by (simp add: notify_full_iff)
  then have nf: "Suc ?h mod 64 \<noteq> ?t"
    by (metis next64 word_unat_eq_iff)
  have i: "unat (notifyHead q AND 63) = ?h"
    using h by (simp add: idx64)
  have "\<not> 256 < len" using len(2) by simp
  then have run: "notifyQueuePushFromISR buf len pcm8 q = (True, ?q')"
    using notfull by (simp add: notifyQueuePushFromISR_def Let_def i)
  have "unat (n_length ?slot') \<le> length (n_data ?slot')"
    using len(1) by (simp add: memcpy_def)
  then have "\<forall>s \<in> set ((notifyQueue q)[?h := ?slot']). unat (n_length s) \<le> length (n_data s)"
    using ok by (auto simp add: notify_ok_def dest!: set_update_subset_insert [THEN subsetD])
  then have ok': "notify_ok ?q'"
    using ok by (simp add: notify_ok_def next64)
  have pay: "notify_payload ?slot' = take (unat len) buf"
    using len(1) by (simp add: notify_payload_def memcpy0_take)
  have "notify_view ?q' = ring_view 64 (Suc ?h mod 64) ?t ((map notify_payload (notifyQueue q))[?h := take (unat len) buf])"
    by (simp add: notify_view_def next64 map_update pay)
  also have "\<dots> = notify_view q @ [take (unat len) buf]"
    unfolding notify_view_def using h t n nf by (intro ring_view_push) simp_all
  finally show ?thesis
    using run ok' by blast
qed

lemma notify_pop_empty:
  "notify_ok q \<Longrightarrow> notify_view q = [] \<Longrightarrow> notifyQueuePop out q = (False, out, q)"
proof -
  assume ok: "notify_ok q" and e: "notify_view q = []"
  have "ring_count 64 (unat (notifyHead q)) (unat (notifyTail q)) = 0"
    using e by (simp add: notify_view_def ring_view_def)
  then have "unat (notifyTail q) = unat (notifyHead q)"
    using ok ring_count_empty [of "unat (notifyHead q)" 64 "unat (notifyTail q)"]
    by (simp add: notify_ok_def)
  then have "notifyTail q = notifyHead q"
    by (simp add: word_unat_eq_iff)
  then show ?thesis
    by (simp add: notifyQueuePop_def)
qed

lemma notify_pop_item:
  assumes ok: "notify_ok q" and v: "notify_view q = x # xs"
  shows "\<exists>out' q'. notifyQueuePop out q = (True, out', q') \<and> notify_ok q'
            \<and> notify_payload out' = x \<and> notify_view q' = xs"
proof -
  let ?h = "unat (notifyHead q)" and ?t = "unat (notifyTail q)"
  let ?slot = "notifyQueue q ! ?t"
  let ?out' = "out\<lparr>n_length := n_length ?slot,
                   n_data := memcpy (n_data out) 0 (n_data ?slot) (unat (n_length ?slot))\<rparr>"
  let ?q' = "q\<lparr>notifyTail := (notifyTail q + 1) AND 63\<rparr>"
  have h: "?h < 64" and t: "?t < 64" and n: "length (notifyQueue q) = 64"
    using ok by (simp_all add: notify_ok_def)
  have "ring_count 64 ?h ?t \<noteq> 0"
    using v length_ring_view [of 64 ?h ?t "map notify_payload (notifyQueue q)"]
    by (simp add: notify_view_def)
  then have ne: "?t \<noteq> ?h"
    using h t ring_count_empty [of ?h 64 ?t] by simp
  then have ne': "notifyTail q \<noteq> notifyHead q"
    by auto
  have i: "unat (notifyTail q AND 63) = ?t"
    using t by (simp add: idx64)
  have run: "notifyQueuePop out q = (True, ?out', ?q')"
    using ne' by (simp add: notifyQueuePop_def Let_def i)
  have ok': "notify_ok ?q'"
    using ok by (simp add: notify_ok_def next64)
  have split: "notify_view q = notify_payload ?slot # notify_view ?q'"
    unfolding notify_view_def using h t ne n
    by (simp add: ring_view_pop [of ?h 64 ?t] next64)
  have "?slot \<in> set (notifyQueue q)"
    using t n by simp
  then have "unat (n_length ?slot) \<le> length (n_data ?slot)"
    using ok by (simp add: notify_ok_def)
  then have pay: "notify_payload ?out' = notify_payload ?slot"
    by (simp add: notify_payload_def memcpy0_take)
  show ?thesis
    using run ok' split pay v by auto
qed



lemma notify_push_all_spec:
  assumes "notify_ok q" "\<forall>b \<in> set bufs. length (fst b) \<le> 256"
  shows "\<exists>q'. notify_push_all bufs q =
            (replicate (min (length bufs) (63 - length (notify_view q))) True
               @ replicate (length bufs - (63 - length (notify_view q))) False, q')
          \<and> notify_ok q'
          \<and> notify_view q' = notify_view q @ take (63 - length (notify_view q)) (map fst bufs)"
  using assms
proof (induction bufs arbitrary: q)
  case Nil
  then show ?case by simp
next
  case (Cons bp bufs)
  obtain b p where bp: "bp = (b, p)" by (cases bp)
  have lb: "length b \<le> 256" using Cons.prems(2) bp by simp
  have rest: "\<forall>b \<in> set bufs. length (fst b) \<le> 256" using Cons.prems(2) by simp
  have le63: "length (notify_view q) \<le> 63"
    using notify_view_length [OF Cons.prems(1)] by simp
  show ?case
  proof (cases "length (notify_view q) = 63")
    case True
    have p: "notifyQueuePushFromISR b (of_nat (length b)) p q = (False, q)"
      using Cons.prems(1) True by (rule notify_push_full)
    obtain q' where q': "notify_push_all bufs q =
            (replicate (min (length bufs) (63 - length (notify_view q))) True
               @ replicate (length bufs - (63 - length (notify_view q))) False, q')"
          "notify_ok q'"
          "notify_view q' = notify_view q @ take (63 - length (notify_view q)) (map fst bufs)"
      using Cons.IH [of q] Cons.prems(1) rest by auto
    show ?thesis
      using p q' True bp by simp
  next
    case False
    obtain q1 where q1: "notifyQueuePushFromISR b (of_nat (length b)) p q = (True, q1)"
        "notify_ok q1" "notify_view q1 = notify_view q @ [b]"
      using notify_push_room [OF Cons.prems(1) False, of "of_nat (length b)" b p] lb
      by (auto simp add: u16_of_len u16_of_len_le)
    obtain q' where q': "notify_push_all bufs q1 =
            (replicate (min (length bufs) (63 - length (notify_view q1))) True
               @ replicate (length bufs - (63 - length (notify_view q1))) False, q')"
          "notify_ok q'"
          "notify_view q' = notify_view q1 @ take (63 - length (notify_view q1)) (map fst bufs)"
      using Cons.IH [of q1] q1(2) rest by auto
    have l1: "length (notify_view q1) = Suc (length (notify_view q))"
      using q1(3) by simp
    have d: "63 - length (notify_view q) = Suc (63 - length (notify_view q1))"
      using l1 le63 False by simp
    show ?thesis
      using q1 q' bp by (simp add: d l1)
  qed
qed

lemma notify_pop_n_spec:
  assumes "notify_ok q"
  shows "\<exists>q'. notify_pop_n m item q =
            (map Some (take m (notify_view q)) @ replicate (m - length (notify_view q)) None, q')
          \<and> notify_ok q' \<and> notify_view q' = drop m (notify_view q)"
  using assms
proof (induction m arbitrary: q item)
  case 0
  then show ?case by simp
next
  case (Suc m)
  show ?case
  proof (cases "notify_view q")
    case Nil
    have p: "notifyQueuePop item q = (False, item, q)"
      using Suc.prems Nil by (rule notify_pop_empty)
    obtain q' where q': "notify_pop_n m item q =
            (map Some (take m (notify_view q)) @ replicate (m - length (notify_view q)) None, q')"
          "notify_ok q'" "notify_view q' = drop m (notify_view q)"
      using Suc.IH [of q item] Suc.prems by auto
    show ?thesis
      using p q' Nil by simp
  next
    case (Cons x xs)
    obtain out' q1 where q1: "notifyQueuePop item q = (True, out', q1)" "notify_ok q1"
        "notify_payload out' = x" "notify_view q1 = xs"
      using notify_pop_item [OF Suc.prems Cons, of item] by auto
    obtain q' where q': "notify_pop_n m out' q1 =
            (map Some (take m (notify_view q1)) @ replicate (m - length (notify_view q1)) None, q')"
          "notify_ok q'" "notify_view q' = drop m (notify_view q1)"
      using Suc.IH [of q1 out'] q1(2) by auto
    show ?thesis
      using q1 q' Cons by simp
  qed
qed

lemma notify_init_ok: "notify_ok notify_init"
  by (simp add: notify_ok_def notify_init_def)

lemma notify_init_view: "notify_view notify_init = []"
  by (simp add: notify_view_def notify_init_def ring_view_def ring_count_def)

lemma notify_fifo:
  assumes "\<forall>b \<in> set bufs. length (fst b) \<le> 256"
  shows "fst (notify_push_all bufs notify_init) =
           replicate (min (length bufs) 63) True @ replicate (length bufs - 63) False
    \<and> fst (notify_pop_n m item (snd (notify_push_all bufs notify_init))) =
           map Some (take m (take 63 (map fst bufs))) @ replicate (m - min (length bufs) 63) None"
proof -
  obtain q1 where q1: "notify_push_all bufs notify_init =
            (replicate (min (length bufs) 63) True @ replicate (length bufs - 63) False, q1)"
          "notify_ok q1" "notify_view q1 = take 63 (map fst bufs)"
    using notify_push_all_spec [OF notify_init_ok assms] by (auto simp add: notify_init_view)
  obtain q2 where q2: "notify_pop_n m item q1 =
            (map Some (take m (notify_view q1)) @ replicate (m - length (notify_view q1)) None, q2)"
    using notify_pop_n_spec [OF q1(2), of m item] by auto
  show ?thesis
    using q1 q2 by simp
qed



lemma bleIn_empty_view: "bleInTail q = bleInHead q \<Longrightarrow> bleIn_view q = []"
  by (simp add: bleIn_view_def ring_view_def ring_count_def)

lemma notify_empty_view: "notifyTail q = notifyHead q \<Longrightarrow> notify_view q = []"
  by (simp add: notify_view_def ring_view_def ring_count_def)

lemma bleIn_fifo_from:
  assumes ok: "bleIn_ok q" and e: "bleInTail q = bleInHead q"
    and b: "\<forall>b \<in> set bufs. length b \<le> 256"
  shows "fst (bleIn_push_all bufs q) =
           replicate (min (length bufs) 15) True @ replicate (length bufs - 15) False
    \<and> fst (bleIn_pop_n m item (snd (bleIn_push_all bufs q))) =
           map Some (take m (take 15 bufs)) @ replicate (m - min (length bufs) 15) None
    \<and> bleIn_ok (snd (bleIn_pop_n m item (snd (bleIn_push_all bufs q))))
    \<and> bleIn_view (snd (bleIn_pop_n m item (snd (bleIn_push_all bufs q)))) = drop m (take 15 bufs)"
proof -
  obtain q1 where q1: "bleIn_push_all bufs q =
            (replicate (min (length bufs) 15) True @ replicate (length bufs - 15) False, q1)"
          "bleIn_ok q1" "bleIn_view q1 = take 15 bufs"
    using bleIn_push_all_spec [OF ok b] by (auto simp add: bleIn_empty_view [OF e])
  obtain q2 where q2: "bleIn_pop_n m item q1 =
            (map Some (take m (bleIn_view q1)) @ replicate (m - length (bleIn_view q1)) None, q2)"
          "bleIn_ok q2" "bleIn_view q2 = drop m (bleIn_view q1)"
    using bleIn_pop_n_spec [OF q1(2), of m item] by auto
  show ?thesis
    using q1 q2 by simp
qed

lemma notify_fifo_from:
  assumes ok: "notify_ok q" and e: "notifyTail q = notifyHead q"
    and b: "\<forall>b \<in> set bufs. length (fst b) \<le> 256"
  shows "fst (notify_push_all bufs q) =
           replicate (min (length bufs) 63) True @ replicate (length bufs - 63) False
    \<and> fst (notify_pop_n m item (snd (notify_push_all bufs q))) =
           map Some (take m (take 63 (map fst bufs))) @ replicate (m - min (length bufs) 63) None
    \<and> notify_ok (snd (notify_pop_n m item (snd (notify_push_all bufs q))))
    \<and> notify_view (snd (notify_pop_n m item (snd (notify_push_all bufs q))))
        = drop m (take 63 (map fst bufs))"
proof -
  obtain q1 where q1: "notify_push_all bufs q =
            (replicate (min (length bufs) 63) True @ replicate (length bufs - 63) False, q1)"
          "notify_ok q1" "notify_view q1 = take 63 (map fst bufs)"
    using notify_push_all_spec [OF ok b] by (auto simp add: notify_empty_view [OF e])
  obtain q2 where q2: "notify_pop_n m item q1 =
            (map Some (take m (notify_view q1)) @ replicate (m - length (notify_view q1)) None, q2)"
          "notify_ok q2" "notify_view q2 = drop m (notify_view q1)"
    using notify_pop_n_spec [OF q1(2), of m item] by auto
  show ?thesis
    using q1 q2 by simp
qed

lemma bleIn_view_empty_iff:
  assumes "bleIn_ok q"
  shows "bleIn_view q = [] \<longleftrightarrow> bleInTail q = bleInHead q"
proof
  assume "bleIn_view q = []"
  then have "ring_count 16 (unat (bleInHead q)) (unat (bleInTail q)) = 0"
    using length_ring_view [of 16 "unat (bleInHead q)" "unat (bleInTail q)"
        "map item_payload (bleInQueue q)"]
    by (simp add: bleIn_view_def)
  then have "unat (bleInHead q) = unat (bleInTail q)"
    using assms ring_count_empty [of "unat (bleInHead q)" 16 "unat (bleInTail q)"]
    by (simp add: bleIn_ok_def)
  then show "bleInTail q = bleInHead q" by (simp add: word_unat_eq_iff)
qed (rule bleIn_empty_view)

lemma notify_view_empty_iff:
  assumes "notify_ok q"
  shows "notify_view q = [] \<longleftrightarrow> notifyTail q = notifyHead q"
proof
  assume "notify_view q = []"
  then have "ring_count 64 (unat (notifyHead q)) (unat (notifyTail q)) = 0"
    using length_ring_view [of 64 "unat (notifyHead q)" "unat (notifyTail q)"
        "map notify_payload (notifyQueue q)"]
    by (simp add: notify_view_def)
  then have "unat (notifyHead q) = unat (notifyTail q)"
    using assms ring_count_empty [of "unat (notifyHead q)" 64 "unat (notifyTail q)"]
    by (simp add: notify_ok_def)
  then show "notifyTail q = notifyHead q" by (simp add: word_unat_eq_iff)
qed (rule notify_empty_view)

section \<open>Claim C1: the ring queues are FIFO\<close>

text \<open>
  Claim C1, as the code has it.  A queue is full when \<open>(head + 1) & mask = tail\<close>, so
  one slot always stays free: the Hub's 16-slot queue holds 15 items and the Relay's
  64-slot queue holds 63.  A queue is empty when \<open>tail = head\<close>, at whatever index the
  two stand; the queue after \<open>setup()\<close> is one such state.  Starting from any empty
  queue, \<open>N\<close> pushes of items of at most 256 bytes followed by \<open>M\<close> pops behave as
  follows: the first \<open>min N (slots - 1)\<close> pushes return true and all later ones false;
  the pops return the payloads of the accepted items in the order they were pushed, and
  every pop after the last stored item returns false; when all stored items have been
  popped the queue is empty again.  A push on a full queue returns false and leaves
  the slots and both indices as they were; a pop on an empty queue returns false and
  leaves the queue and the caller's item as they were.
\<close>

theorem ring_queue_fifo:
  "(bleIn_ok q0 \<and> bleInTail q0 = bleInHead q0 \<and> (\<forall>b \<in> set bufs. length b \<le> 256) \<longrightarrow>
      fst (bleIn_push_all bufs q0) =
        replicate (min (length bufs) 15) True @ replicate (length bufs - 15) False
      \<and> fst (bleIn_pop_n m item (snd (bleIn_push_all bufs q0))) =
        map Some (take m (take 15 bufs)) @ replicate (m - min (length bufs) 15) None
      \<and> bleIn_ok (snd (bleIn_pop_n m item (snd (bleIn_push_all bufs q0))))
      \<and> (min (length bufs) 15 \<le> m \<longrightarrow>
           bleInTail (snd (bleIn_pop_n m item (snd (bleIn_push_all bufs q0))))
             = bleInHead (snd (bleIn_pop_n m item (snd (bleIn_push_all bufs q0))))))
   \<and> (notify_ok nq0 \<and> notifyTail nq0 = notifyHead nq0
        \<and> (\<forall>b \<in> set nbufs. length (fst b) \<le> 256) \<longrightarrow>
      fst (notify_push_all nbufs nq0) =
        replicate (min (length nbufs) 63) True @ replicate (length nbufs - 63) False
      \<and> fst (notify_pop_n m nitem (snd (notify_push_all nbufs nq0))) =
        map Some (take m (take 63 (map fst nbufs)))
          @ replicate (m - min (length nbufs) 63) None
      \<and> notify_ok (snd (notify_pop_n m nitem (snd (notify_push_all nbufs nq0))))
      \<and> (min (length nbufs) 63 \<le> m \<longrightarrow>
           notifyTail (snd (notify_pop_n m nitem (snd (notify_push_all nbufs nq0))))
             = notifyHead (snd (notify_pop_n m nitem (snd (notify_push_all nbufs nq0))))))
   \<and> bleIn_ok bleIn_init \<and> bleInTail bleIn_init = bleInHead bleIn_init
   \<and> notify_ok notify_init \<and> notifyTail notify_init = notifyHead notify_init
   \<and> ((bleInHead q + 1) AND 0x0F = bleInTail q \<longrightarrow> bleInPushFromISR buf len q = (False, q))
   \<and> ((notifyHead nq + 1) AND 63 = notifyTail nq \<longrightarrow>
        notifyQueuePushFromISR buf len pcm8 nq = (False, nq))
   \<and> (bleInTail q = bleInHead q \<longrightarrow> bleInPop item q = (False, item, q))
   \<and> (notifyTail nq = notifyHead nq \<longrightarrow> notifyQueuePop nitem nq = (False, nitem, nq))"
proof -
  have hub: "bleIn_ok q0 \<and> bleInTail q0 = bleInHead q0 \<and> (\<forall>b \<in> set bufs. length b \<le> 256) \<longrightarrow>
      fst (bleIn_push_all bufs q0) =
        replicate (min (length bufs) 15) True @ replicate (length bufs - 15) False
      \<and> fst (bleIn_pop_n m item (snd (bleIn_push_all bufs q0))) =
        map Some (take m (take 15 bufs)) @ replicate (m - min (length bufs) 15) None
      \<and> bleIn_ok (snd (bleIn_pop_n m item (snd (bleIn_push_all bufs q0))))
      \<and> (min (length bufs) 15 \<le> m \<longrightarrow>
           bleInTail (snd (bleIn_pop_n m item (snd (bleIn_push_all bufs q0))))
             = bleInHead (snd (bleIn_pop_n m item (snd (bleIn_push_all bufs q0)))))"
  proof
    assume h: "bleIn_ok q0 \<and> bleInTail q0 = bleInHead q0 \<and> (\<forall>b \<in> set bufs. length b \<le> 256)"
    let ?q = "snd (bleIn_pop_n m item (snd (bleIn_push_all bufs q0)))"
    have f: "fst (bleIn_push_all bufs q0) =
           replicate (min (length bufs) 15) True @ replicate (length bufs - 15) False"
        "fst (bleIn_pop_n m item (snd (bleIn_push_all bufs q0))) =
           map Some (take m (take 15 bufs)) @ replicate (m - min (length bufs) 15) None"
        "bleIn_ok ?q" "bleIn_view ?q = drop m (take 15 bufs)"
      using bleIn_fifo_from [of q0 bufs m item] h by simp_all
    have "min (length bufs) 15 \<le> m \<longrightarrow> bleInTail ?q = bleInHead ?q"
      using bleIn_view_empty_iff [OF f(3)] f(4) by simp
    then show "fst (bleIn_push_all bufs q0) =
        replicate (min (length bufs) 15) True @ replicate (length bufs - 15) False
      \<and> fst (bleIn_pop_n m item (snd (bleIn_push_all bufs q0))) =
        map Some (take m (take 15 bufs)) @ replicate (m - min (length bufs) 15) None
      \<and> bleIn_ok ?q
      \<and> (min (length bufs) 15 \<le> m \<longrightarrow> bleInTail ?q = bleInHead ?q)"
      using f(1,2,3) by (intro conjI)
  qed
  have relay: "notify_ok nq0 \<and> notifyTail nq0 = notifyHead nq0
        \<and> (\<forall>b \<in> set nbufs. length (fst b) \<le> 256) \<longrightarrow>
      fst (notify_push_all nbufs nq0) =
        replicate (min (length nbufs) 63) True @ replicate (length nbufs - 63) False
      \<and> fst (notify_pop_n m nitem (snd (notify_push_all nbufs nq0))) =
        map Some (take m (take 63 (map fst nbufs)))
          @ replicate (m - min (length nbufs) 63) None
      \<and> notify_ok (snd (notify_pop_n m nitem (snd (notify_push_all nbufs nq0))))
      \<and> (min (length nbufs) 63 \<le> m \<longrightarrow>
           notifyTail (snd (notify_pop_n m nitem (snd (notify_push_all nbufs nq0))))
             = notifyHead (snd (notify_pop_n m nitem (snd (notify_push_all nbufs nq0)))))"
  proof
    assume h: "notify_ok nq0 \<and> notifyTail nq0 = notifyHead nq0
        \<and> (\<forall>b \<in> set nbufs. length (fst b) \<le> 256)"
    let ?q = "snd (notify_pop_n m nitem (snd (notify_push_all nbufs nq0)))"
    have f: "fst (notify_push_all nbufs nq0) =
           replicate (min (length nbufs) 63) True @ replicate (length nbufs - 63) False"
        "fst (notify_pop_n m nitem (snd (notify_push_all nbufs nq0))) =
           map Some (take m (take 63 (map fst nbufs)))
             @ replicate (m - min (length nbufs) 63) None"
        "notify_ok ?q" "notify_view ?q = drop m (take 63 (map fst nbufs))"
      using notify_fifo_from [of nq0 nbufs m nitem] h by simp_all
    have "min (length nbufs) 63 \<le> m \<longrightarrow> notifyTail ?q = notifyHead ?q"
      using notify_view_empty_iff [OF f(3)] f(4) by simp
    then show "fst (notify_push_all nbufs nq0) =
        replicate (min (length nbufs) 63) True @ replicate (length nbufs - 63) False
      \<and> fst (notify_pop_n m nitem (snd (notify_push_all nbufs nq0))) =
        map Some (take m (take 63 (map fst nbufs)))
          @ replicate (m - min (length nbufs) 63) None
      \<and> notify_ok ?q
      \<and> (min (length nbufs) 63 \<le> m \<longrightarrow> notifyTail ?q = notifyHead ?q)"
      using f(1,2,3) by (intro conjI)
  qed
  have init: "bleIn_ok bleIn_init" "bleInTail bleIn_init = bleInHead bleIn_init"
      "notify_ok notify_init" "notifyTail notify_init = notifyHead notify_init"
    using bleIn_init_ok notify_init_ok by (simp_all add: bleIn_init_def notify_init_def)
  have full_hub: "(bleInHead q + 1) AND 0x0F = bleInTail q \<longrightarrow>
      bleInPushFromISR buf len q = (False, q)"
    by (simp add: bleInPushFromISR_def Let_def)
  have full_relay: "(notifyHead nq + 1) AND 63 = notifyTail nq \<longrightarrow>
      notifyQueuePushFromISR buf len pcm8 nq = (False, nq)"
    by (simp add: notifyQueuePushFromISR_def Let_def)
  have empty_hub: "bleInTail q = bleInHead q \<longrightarrow> bleInPop item q = (False, item, q)"
    by (simp add: bleInPop_def)
  have empty_relay: "notifyTail nq = notifyHead nq \<longrightarrow>
      notifyQueuePop nitem nq = (False, nitem, nq)"
    by (simp add: notifyQueuePop_def)
  from hub relay init full_hub full_relay empty_hub empty_relay show ?thesis
    by (intro conjI)
qed

theorem ring_queue_fifo_witness:
  "bleInTail (bleIn_init\<lparr>bleInHead := 15, bleInTail := 15\<rparr>)
     = bleInHead (bleIn_init\<lparr>bleInHead := 15, bleInTail := 15\<rparr>)
   \<and> fst (bleIn_push_all [[1, 2], [3]] (bleIn_init\<lparr>bleInHead := 15, bleInTail := 15\<rparr>))
       = [True, True]
   \<and> fst (bleIn_pop_n 3 \<lparr>item_length = 0, item_data = []\<rparr>
            (snd (bleIn_push_all [[1, 2], [3]] (bleIn_init\<lparr>bleInHead := 15, bleInTail := 15\<rparr>))))
       = [Some [1, 2], Some [3], None]
   \<and> bleInTail (snd (bleIn_pop_n 3 \<lparr>item_length = 0, item_data = []\<rparr>
            (snd (bleIn_push_all [[1, 2], [3]] (bleIn_init\<lparr>bleInHead := 15, bleInTail := 15\<rparr>)))))
       = bleInHead (snd (bleIn_pop_n 3 \<lparr>item_length = 0, item_data = []\<rparr>
            (snd (bleIn_push_all [[1, 2], [3]] (bleIn_init\<lparr>bleInHead := 15, bleInTail := 15\<rparr>)))))
   \<and> notifyTail (notify_init\<lparr>notifyHead := 63, notifyTail := 63\<rparr>)
     = notifyHead (notify_init\<lparr>notifyHead := 63, notifyTail := 63\<rparr>)
   \<and> fst (notify_push_all [([1, 2], 0), ([3], 1)]
        (notify_init\<lparr>notifyHead := 63, notifyTail := 63\<rparr>)) = [True, True]
   \<and> fst (notify_pop_n 3 \<lparr>n_length = 0, n_data = [], isPcm8 = 0\<rparr>
            (snd (notify_push_all [([1, 2], 0), ([3], 1)]
               (notify_init\<lparr>notifyHead := 63, notifyTail := 63\<rparr>))))
       = [Some [1, 2], Some [3], None]
   \<and> (bleInHead (bleIn_init\<lparr>bleInHead := 15\<rparr>) + 1) AND 0x0F
       = bleInTail (bleIn_init\<lparr>bleInHead := 15\<rparr>)
   \<and> bleInPushFromISR [7] 1 (bleIn_init\<lparr>bleInHead := 15\<rparr>)
       = (False, bleIn_init\<lparr>bleInHead := 15\<rparr>)
   \<and> (notifyHead (notify_init\<lparr>notifyHead := 63\<rparr>) + 1) AND 63
       = notifyTail (notify_init\<lparr>notifyHead := 63\<rparr>)
   \<and> notifyQueuePushFromISR [7] 1 0 (notify_init\<lparr>notifyHead := 63\<rparr>)
       = (False, notify_init\<lparr>notifyHead := 63\<rparr>)
   \<and> bleInPop \<lparr>item_length = 0, item_data = []\<rparr> (bleIn_init\<lparr>bleInHead := 15, bleInTail := 15\<rparr>)
       = (False, \<lparr>item_length = 0, item_data = []\<rparr>, bleIn_init\<lparr>bleInHead := 15, bleInTail := 15\<rparr>)
   \<and> notifyQueuePop \<lparr>n_length = 0, n_data = [], isPcm8 = 0\<rparr>
        (notify_init\<lparr>notifyHead := 63, notifyTail := 63\<rparr>)
       = (False, \<lparr>n_length = 0, n_data = [], isPcm8 = 0\<rparr>,
          notify_init\<lparr>notifyHead := 63, notifyTail := 63\<rparr>)"
proof -
  let ?q = "bleIn_init\<lparr>bleInHead := 15, bleInTail := 15\<rparr>"
  let ?nq = "notify_init\<lparr>notifyHead := 63, notifyTail := 63\<rparr>"
  have hub_ok: "bleIn_ok ?q \<and> bleInTail ?q = bleInHead ?q
      \<and> (\<forall>b \<in> set [[1, 2], [3 :: u8]]. length b \<le> 256)"
    by (simp add: bleIn_ok_def bleIn_init_def)
  have relay_ok: "notify_ok ?nq \<and> notifyTail ?nq = notifyHead ?nq
      \<and> (\<forall>b \<in> set [([1, 2], 0), ([3 :: u8], 1 :: u8)]. length (fst b) \<le> 256)"
    by (simp add: notify_ok_def notify_init_def)
  have hub_full: "(bleInHead (bleIn_init\<lparr>bleInHead := 15\<rparr>) + 1) AND 0x0F
       = bleInTail (bleIn_init\<lparr>bleInHead := 15\<rparr>)"
    by (simp add: bleIn_init_def)
  have relay_full: "(notifyHead (notify_init\<lparr>notifyHead := 63\<rparr>) + 1) AND 63
       = notifyTail (notify_init\<lparr>notifyHead := 63\<rparr>)"
    by (simp add: notify_init_def)
  have hub_empty: "bleInTail ?q = bleInHead ?q" by simp
  have relay_empty: "notifyTail ?nq = notifyHead ?nq" by simp
  have m: "min (length [[1, 2], [3 :: u8]]) 15 \<le> 3"
      "min (length [([1, 2], 0), ([3 :: u8], 1 :: u8)]) 63 \<le> 3"
    by simp_all
  note a = ring_queue_fifo [where ?q0.0 = ?q and bufs = "[[1, 2], [3]]" and m = 3
        and item = "\<lparr>item_length = 0, item_data = []\<rparr>"
        and ?nq0.0 = ?nq and nbufs = "[([1, 2], 0), ([3], 1)]"
        and nitem = "\<lparr>n_length = 0, n_data = [], isPcm8 = 0\<rparr>"
        and q = "bleIn_init\<lparr>bleInHead := 15\<rparr>" and buf = "[7]" and len = 1
        and nq = "notify_init\<lparr>notifyHead := 63\<rparr>" and ?pcm8.0 = 0]
  note b = ring_queue_fifo [where bufs = "[]" and nbufs = "[]" and q = ?q
        and nq = ?nq and item = "\<lparr>item_length = 0, item_data = []\<rparr>"
        and nitem = "\<lparr>n_length = 0, n_data = [], isPcm8 = 0\<rparr>"]
  show ?thesis
    using a b hub_ok relay_ok hub_full relay_full hub_empty relay_empty m
    by (simp add: numeral_eq_Suc)
qed

text \<open>
  The claim as stated counts the slot count as the capacity.  Sixteen pushes into the
  empty 16-slot Hub queue followed by sixteen pops: the sixteenth push is refused and
  the sixteenth pop finds the queue empty, so only fifteen items come back.
\<close>

theorem ring_queue_capacity_counterexample:
  "fst (bleIn_push_all
          [[1], [2], [3], [4], [5], [6], [7], [8], [9], [10], [11], [12], [13], [14], [15], [16]]
          bleIn_init)
     = [True, True, True, True, True, True, True, True, True, True, True, True, True, True,
        True, False]
   \<and> fst (bleIn_pop_n 16 \<lparr>item_length = 0, item_data = []\<rparr>
        (snd (bleIn_push_all
          [[1], [2], [3], [4], [5], [6], [7], [8], [9], [10], [11], [12], [13], [14], [15], [16]]
          bleIn_init)))
     = [Some [1], Some [2], Some [3], Some [4], Some [5], Some [6], Some [7], Some [8],
        Some [9], Some [10], Some [11], Some [12], Some [13], Some [14], Some [15], None]"
  using bleIn_fifo [of
      "[[1], [2], [3], [4], [5], [6], [7], [8], [9], [10], [11], [12], [13], [14], [15], [16]]"
      16 "\<lparr>item_length = 0, item_data = []\<rparr>"]
  by (simp add: numeral_eq_Suc)


section \<open>The compact text frame: parsing what was printed\<close>

lemma ucast_u8_of_nat: "k < 256 \<Longrightarrow> (ucast (of_nat k :: u8) :: i32) = of_nat k"
  by transfer (simp add: take_bit_nat_eq_self take_bit_of_nat)

lemma unat_u8_of_nat: "k < 256 \<Longrightarrow> unat (of_nat k :: u8) = k"
  by (simp add: unat_of_nat)

lemma digit_byte_is_digit: "d < 10 \<Longrightarrow> is_digit (of_nat (48 + d))"
  unfolding is_digit_def word_le_nat_alt
  using unat_u8_of_nat [of "48 + d"] by simp

lemma digit_byte_not_colon: "d < 10 \<Longrightarrow> (of_nat (48 + d) :: u8) \<noteq> 0x3A"
proof
  assume d: "d < 10" and "(of_nat (48 + d) :: u8) = 0x3A"
  then have "unat (of_nat (48 + d) :: u8) = unat (0x3A :: u8)" by simp
  then show False using d unat_u8_of_nat [of "48 + d"] by simp
qed

lemma digit_byte_value: "d < 10 \<Longrightarrow> (ucast (of_nat (48 + d) :: u8) :: i32) - 0x30 = of_nat d"
proof -
  assume "d < 10"
  then have "(ucast (of_nat (48 + d) :: u8) :: i32) = of_nat (48 + d)"
    by (intro ucast_u8_of_nat) simp
  then show ?thesis by simp
qed

lemma parse_loop_digits:
  assumes "\<forall>c \<in> set ds. is_digit c \<and> c \<noteq> 0x3A" "length vals < 8"
  shows "parse_loop (ds @ rest) idx cur vals
       = parse_loop rest (idx + length ds) (digits_value cur ds) vals"
  using assms
  by (induction ds arbitrary: idx cur) (simp_all add: digits_value_def is_digit_def)

lemma dec_digits_are_digits: "\<forall>c \<in> set (dec_digits n). is_digit c \<and> c \<noteq> 0x3A"
proof (induction n rule: dec_digits.induct)
  case (1 n)
  show ?case
  proof (cases "n < 10")
    case True
    then show ?thesis
      using digit_byte_is_digit [of n] digit_byte_not_colon [of n]
      by (subst dec_digits.simps) simp
  next
    case False
    have "n mod 10 < 10" by simp
    then show ?thesis
      using False 1 digit_byte_is_digit [of "n mod 10"] digit_byte_not_colon [of "n mod 10"]
      by (subst dec_digits.simps) simp
  qed
qed

lemma digits_value_dec: "digits_value 0 (dec_digits n) = of_nat n"
proof (induction n rule: dec_digits.induct)
  case (1 n)
  show ?case
  proof (cases "n < 10")
    case True
    then show ?thesis
      using digit_byte_value [of n]
      by (subst dec_digits.simps) (simp add: digits_value_def)
  next
    case False
    have m: "n mod 10 < 10" by simp
    have "digits_value 0 (dec_digits n)
        = digits_value 0 (dec_digits (n div 10)) * 10 + of_nat (n mod 10)"
      using False digit_byte_value [OF m]
      by (subst dec_digits.simps) (simp add: digits_value_def)
    also have "\<dots> = of_nat (n div 10) * 10 + of_nat (n mod 10)"
      using False 1 by simp
    also have "\<dots> = of_nat (n div 10 * 10 + n mod 10)"
      by (simp only: of_nat_add of_nat_mult of_nat_numeral)
    also have "n div 10 * 10 + n mod 10 = n"
      by simp
    finally show ?thesis .
  qed
qed

lemma print_d_nonneg: "0 \<le> sint v \<Longrightarrow> print_d v = dec_digits (nat (sint v))"
  by (simp add: print_d_def)

lemma of_nat_nat_sint: "0 \<le> sint (v :: i32) \<Longrightarrow> (of_nat (nat (sint v)) :: i32) = v"
  by simp

lemma parse_loop_field:
  assumes "0 \<le> sint v" "length vals < 8"
  shows "parse_loop (print_d v @ 0x3A # rest) idx 0 vals
       = parse_loop rest (idx + length (print_d v) + 1) 0 (vals @ [v])"
proof -
  have "parse_loop (print_d v @ 0x3A # rest) idx 0 vals
      = parse_loop (0x3A # rest) (idx + length (print_d v)) (digits_value 0 (print_d v)) vals"
    using assms dec_digits_are_digits [of "nat (sint v)"]
    by (simp add: print_d_nonneg parse_loop_digits)
  also have "digits_value 0 (print_d v) = v"
    using assms(1) by (simp add: print_d_nonneg digits_value_dec)
  finally show ?thesis
    using assms(2) by simp
qed


lemma dec_digits_nonempty: "dec_digits n \<noteq> []"
  by (subst dec_digits.simps) simp

lemma print_d_nonempty: "print_d v \<noteq> []"
  by (simp add: print_d_def dec_digits_nonempty)

lemma parse_loop_done: "length vals = 8 \<Longrightarrow> parse_loop rest idx cur vals = Some (vals, idx)"
  by (cases rest) simp_all

lemma parse_loop_fields:
  assumes "vs \<noteq> []" "\<forall>v \<in> set vs. 0 \<le> sint v" "length vals + length vs \<le> 8"
  shows "parse_loop (join_colon (map print_d vs) @ 0x3A # rest) idx 0 vals
       = parse_loop rest (idx + length (join_colon (map print_d vs)) + 1) 0 (vals @ vs)"
  using assms
proof (induction vs arbitrary: idx vals)
  case Nil
  then show ?case by simp
next
  case (Cons v vs)
  have v: "0 \<le> sint v" and lv: "length vals < 8"
    using Cons.prems by simp_all
  show ?case
  proof (cases vs)
    case Nil
    then show ?thesis
      using parse_loop_field [OF v lv, of rest idx] by simp
  next
    case (Cons w ws)
    have "parse_loop (join_colon (map print_d (v # vs)) @ 0x3A # rest) idx 0 vals
        = parse_loop (print_d v @ 0x3A # (join_colon (map print_d vs) @ 0x3A # rest)) idx 0 vals"
      using Cons by simp
    also have "\<dots> = parse_loop (join_colon (map print_d vs) @ 0x3A # rest)
                        (idx + length (print_d v) + 1) 0 (vals @ [v])"
      using v lv by (rule parse_loop_field)
    also have "\<dots> = parse_loop rest
        (idx + length (print_d v) + 1 + length (join_colon (map print_d vs)) + 1) 0
        ((vals @ [v]) @ vs)"
      using Cons.IH [of "vals @ [v]" "idx + length (print_d v) + 1"] Cons.prems Cons
      by simp
    finally show ?thesis
      using Cons by (simp add: add.assoc)
  qed
qed

lemma compact_roundtrip:
  assumes len: "length vals = 8" and nonneg: "\<forall>v \<in> set vals. 0 \<le> sint v"
    and pl: "payload \<noteq> []"
  shows "parseCompactAudioHeader (compact_header vals @ [0x3A] @ payload)
           = Some (vals, length (compact_header vals) + 1)"
proof -
  let ?j = "join_colon (map print_d vals)"
  have ne: "vals \<noteq> []" using len by auto
  have loop: "parse_loop (?j @ 0x3A # payload) 2 0 []
            = parse_loop payload (2 + length ?j + 1) 0 vals"
    using parse_loop_fields [OF ne nonneg, where vals = "[]" and rest = payload and idx = 2] len
    by simp
  also have "\<dots> = Some (vals, 2 + length ?j + 1)"
    using len by (rule parse_loop_done)
  finally have l: "parse_loop (?j @ 0x3A # payload) 2 0 [] = Some (vals, 2 + length ?j + 1)" .
  have big: "\<not> length (compact_header vals @ [0x3A] @ payload) < 5"
  proof -
    have "?j \<noteq> []"
    proof (cases vals)
      case Nil
      then show ?thesis using ne by simp
    next
      case (Cons v vs)
      then show ?thesis
        using print_d_nonempty [of v] by (cases vs) simp_all
    qed
    then have "1 \<le> length ?j" by (cases ?j) auto
    moreover have "1 \<le> length payload" using pl by (cases payload) auto
    ultimately show ?thesis by (simp add: compact_header_def)
  qed
  have d: "drop 2 (compact_header vals @ [0x3A] @ payload) = ?j @ 0x3A # payload"
    by (simp add: compact_header_def)
  have "0 < length payload" using pl by simp
  then show ?thesis
    unfolding parseCompactAudioHeader_def
    using big l by (simp add: d) (simp add: compact_header_def)
qed

lemma dec_digits_length: "n < 10 ^ k \<Longrightarrow> 0 < k \<Longrightarrow> length (dec_digits n) \<le> k"
proof (induction n arbitrary: k rule: dec_digits.induct)
  case (1 n)
  show ?case
  proof (cases "n < 10")
    case True
    then show ?thesis
      using 1(3) by (subst dec_digits.simps) simp
  next
    case False
    obtain j where k: "k = Suc j" using 1(3) by (cases k) auto
    have "j \<noteq> 0"
    proof
      assume "j = 0"
      then show False using 1(2) False k by simp
    qed
    then have j: "0 < j" by simp
    have "n div 10 < 10 ^ j"
      using 1(2) k by (simp add: less_mult_imp_div_less mult.commute)
    then have "length (dec_digits (n div 10)) \<le> j"
      using 1(1) [OF False _ j] by simp
    then show ?thesis
      using False k by (subst dec_digits.simps) simp
  qed
qed

lemma sint_i32_range: "- (2 ^ 31) \<le> sint (v :: i32) \<and> sint v < 2 ^ 31"
  using sint_ge [of v] sint_lt [of v] by simp

lemma print_d_length: "length (print_d v) \<le> 11"
proof -
  have r: "- 2147483648 \<le> sint v" "sint v < 2147483648"
    using sint_i32_range [of v] by simp_all
  have a1: "nat (sint v) < 10000000000"
    using r by arith
  have a2: "nat (- sint v) < 10000000000"
    using r by arith
  have a: "nat (sint v) < 10 ^ 10" "nat (- sint v) < 10 ^ 10"
    using a1 a2 by simp_all
  have "length (dec_digits (nat (sint v))) \<le> 10" "length (dec_digits (nat (- sint v))) \<le> 10"
    using a by (simp_all add: dec_digits_length)
  then show ?thesis
    by (simp add: print_d_def)
qed

lemma join_colon_length:
  "\<forall>x \<in> set xs. length x \<le> b \<Longrightarrow> length (join_colon xs) \<le> length xs * (b + 1)"
  by (induction xs rule: join_colon.induct) auto

lemma join_colon_length_strict:
  "xs \<noteq> [] \<Longrightarrow> \<forall>x \<in> set xs. length x \<le> b \<Longrightarrow> Suc (length (join_colon xs)) \<le> length xs * (b + 1)"
  by (induction xs rule: join_colon.induct) auto

lemma compact_header_length: "length vals = 8 \<Longrightarrow> length (compact_header vals) \<le> 97"
proof -
  assume l: "length vals = 8"
  have "\<forall>x \<in> set (map print_d vals). length x \<le> 11"
    by (simp add: print_d_length)
  moreover have "map print_d vals \<noteq> []" using l by auto
  ultimately have "Suc (length (join_colon (map print_d vals))) \<le> length (map print_d vals) * (11 + 1)"
    by (rule join_colon_length_strict [rotated])
  then show ?thesis
    using l by (simp add: compact_header_def)
qed

lemma fit_compact_frame:
  assumes l: "length vals = 8" and r: "length raw \<le> 200"
  shows "fit_espnow (compact_frame vals raw) raw
       = Some (compact_header vals @ [0x3A] @ take (249 - length (compact_header vals)) raw)"
proof -
  let ?h = "compact_header vals"
  have h: "length ?h \<le> 97" using l by (rule compact_header_length)
  have cf: "compact_frame vals raw = ?h @ [0x3A] @ raw"
    using h r by (simp add: compact_frame_def Let_def)
  show ?thesis
  proof (cases "250 < length ?h + 1 + length raw")
    case False
    then have "take (249 - length ?h) raw = raw" by simp
    then show ?thesis
      using False by (simp add: cf fit_espnow_def Let_def)
  next
    case True
    have m: "nat (250 - (int (length ?h) + 1 + int (length raw)) + int (length raw)) = 249 - length ?h"
      using h by simp
    have "fit_espnow (?h @ [0x3A] @ raw) raw
        = Some (take 250 (memcpy (?h @ [0x3A] @ raw) (length ?h + 1) raw (249 - length ?h)))"
      using True h by (simp add: fit_espnow_def Let_def nat_add_distrib nat_diff_distrib')
    also have "take 250 (memcpy (?h @ [0x3A] @ raw) (length ?h + 1) raw (249 - length ?h))
        = ?h @ [0x3A] @ take (249 - length ?h) raw"
    proof -
      let ?A = "?h @ [0x3A] @ take (249 - length ?h) raw"
      have la: "length ?A = 250"
        using True h r by simp
      have "memcpy (?h @ [0x3A] @ raw) (length ?h + 1) raw (249 - length ?h)
          = ?A @ drop (length ?h + 1 + (249 - length ?h)) (?h @ [0x3A] @ raw)"
        by (simp add: memcpy_def)
      then show ?thesis
        using la by (metis append_eq_conv_conj)
    qed
    finally show ?thesis by (simp add: cf)
  qed
qed

section \<open>The chunk sender\<close>

lemma frames_to_append: "frames_to m (xs @ ys) = frames_to m xs @ frames_to m ys"
  by (induction m xs rule: frames_to.induct) auto

lemma frames_to_fan_out:
  "frames_to m (fan_out st msg) = replicate (length (filter (\<lambda>d. isActive d \<and> mac d = m) (peers st))) msg"
proof -
  have "frames_to m (map (\<lambda>d. AudioFrame (mac d) msg) ds)
      = replicate (length (filter (\<lambda>d. mac d = m) ds)) msg" for ds
    by (induction ds) auto
  from this [of "filter isActive (peers st)"] show ?thesis
    by (simp add: fan_out_def conj_commute)
qed

lemma compressAudioData_length: "length (compressAudioData input n) \<le> n"
  by (simp add: compressAudioData_def)

lemma send_chunk_loop_frames:
  "frames_to m (snd (send_chunk_loop st millis n chunk seq outs))
     = frames_to m outs
       @ concat (map (\<lambda>c.
           let raw = compressAudioData (drop (c * AUDIO_CHUNK_SIZE) (audioBuffer st)) AUDIO_CHUNK_SIZE;
               h = compact_header [seq + of_nat (c - chunk), of_nat c, of_nat n, millis c,
                                   16000, 16, 128, 128]
           in replicate (length (filter (\<lambda>d. isActive d \<and> mac d = m) (peers st)))
                (h @ [0x3A] @ take (249 - length h) raw)) [chunk..<n])"
proof (induction st millis n chunk seq outs rule: send_chunk_loop.induct)
  case (1 st millis n chunk seq outs)
  show ?case
  proof (cases "chunk < n")
    case False
    then show ?thesis
      by (subst send_chunk_loop.simps) simp
  next
    case True
    let ?raw = "compressAudioData (drop (chunk * AUDIO_CHUNK_SIZE) (audioBuffer st)) AUDIO_CHUNK_SIZE"
    let ?vals = "[seq, of_nat chunk, of_nat n, millis chunk, 16000, 16, 128, 128]"
    let ?h = "compact_header ?vals"
    let ?msg = "?h @ [0x3A] @ take (249 - length ?h) ?raw"
    let ?outs' = "outs @ fan_out st ?msg
       @ (if deviceConnected st \<and> pAudioCharacteristic st then [BleNotify ?raw] else [])"
    have r: "length ?raw \<le> 200"
      using compressAudioData_length [of _ AUDIO_CHUNK_SIZE] by (simp add: AUDIO_CHUNK_SIZE_def)
    have fit: "fit_espnow (compact_frame ?vals ?raw) ?raw = Some ?msg"
      using r by (intro fit_compact_frame) simp_all
    have step: "send_chunk_loop st millis n chunk seq outs
              = send_chunk_loop st millis n (chunk + 1) (seq + 1) ?outs'"
      using True fit by (subst send_chunk_loop.simps) (simp add: Let_def)
    have ih: "frames_to m (snd (send_chunk_loop st millis n (chunk + 1) (seq + 1) ?outs'))
       = frames_to m ?outs'
       @ concat (map (\<lambda>c.
           let raw = compressAudioData (drop (c * AUDIO_CHUNK_SIZE) (audioBuffer st)) AUDIO_CHUNK_SIZE;
               h = compact_header [seq + 1 + of_nat (c - (chunk + 1)), of_nat c, of_nat n, millis c,
                                   16000, 16, 128, 128]
           in replicate (length (filter (\<lambda>d. isActive d \<and> mac d = m) (peers st)))
                (h @ [0x3A] @ take (249 - length h) raw)) [chunk + 1..<n])"
      using 1(2) [OF True refl refl refl fit] by simp
    have seqs: "seq + 1 + of_nat (c - (chunk + 1)) = seq + of_nat (c - chunk)"
      if "c \<in> set [chunk + 1..<n]" for c
    proof -
      have "c - chunk = Suc (c - (chunk + 1))" using that by auto
      then show ?thesis by simp
    qed
    define f where "f = (\<lambda>c.
           let raw = compressAudioData (drop (c * AUDIO_CHUNK_SIZE) (audioBuffer st)) AUDIO_CHUNK_SIZE;
               h = compact_header [seq + of_nat (c - chunk), of_nat c, of_nat n, millis c,
                                   16000, 16, 128, 128]
           in replicate (length (filter (\<lambda>d. isActive d \<and> mac d = m) (peers st)))
                (h @ [0x3A] @ take (249 - length h) raw))"
    define g where "g = (\<lambda>c.
           let raw = compressAudioData (drop (c * AUDIO_CHUNK_SIZE) (audioBuffer st)) AUDIO_CHUNK_SIZE;
               h = compact_header [seq + 1 + of_nat (c - (chunk + 1)), of_nat c, of_nat n, millis c,
                                   16000, 16, 128, 128]
           in replicate (length (filter (\<lambda>d. isActive d \<and> mac d = m) (peers st)))
                (h @ [0x3A] @ take (249 - length h) raw))"
    have upt: "[chunk..<n] = chunk # [chunk + 1..<n]"
      using True by (simp add: upt_conv_Cons)
    have fo: "frames_to m ?outs' = frames_to m outs @ f chunk"
      by (simp add: frames_to_append frames_to_fan_out f_def Let_def)
    have tl: "map g [chunk + 1..<n] = map f [chunk + 1..<n]"
      by (rule map_cong [OF refl]) (simp only: f_def g_def seqs)
    have "frames_to m (snd (send_chunk_loop st millis n chunk seq outs))
        = frames_to m ?outs' @ concat (map g [chunk + 1..<n])"
      unfolding step using ih by (simp only: g_def)
    also have "\<dots> = frames_to m outs @ f chunk @ concat (map f [chunk + 1..<n])"
      by (simp only: fo tl append_assoc)
    also have "f chunk @ concat (map f [chunk + 1..<n]) = concat (map f [chunk..<n])"
      by (simp add: upt)
    finally show ?thesis
      by (simp only: f_def)
  qed
qed


lemma sendAudioChunks_frames:
  "frames_to m (snd (sendAudioChunks st millis)) =
     concat (map (\<lambda>c.
           let raw = compressAudioData (drop (c * AUDIO_CHUNK_SIZE) (audioBuffer st)) AUDIO_CHUNK_SIZE;
               h = compact_header [audioSequenceNumber st + of_nat (c - 0), of_nat c,
                                   of_nat (audioBufferIndex st div AUDIO_CHUNK_SIZE), millis c,
                                   16000, 16, 128, 128]
           in replicate (length (filter (\<lambda>d. isActive d \<and> mac d = m) (peers st)))
                (h @ [0x3A] @ take (249 - length h) raw))
        [0..<audioBufferIndex st div AUDIO_CHUNK_SIZE])"
proof (cases "meshDeviceCount st = 0 \<and> \<not> deviceConnected st")
  case True
  then have "peers st = []" by (simp add: peers_def)
  then show ?thesis
    using True by (simp add: sendAudioChunks_def Let_def)
next
  case False
  then have "snd (sendAudioChunks st millis)
     = snd (send_chunk_loop st millis (audioBufferIndex st div AUDIO_CHUNK_SIZE) 0
              (audioSequenceNumber st) [])"
    by (auto simp add: sendAudioChunks_def Let_def)
  then show ?thesis
    by (simp only: send_chunk_loop_frames frames_to.simps append_Nil)
qed


lemma length_concat_replicate:
  "length (concat (map (\<lambda>c. replicate k (f c)) xs)) = length xs * k"
  by (induction xs) simp_all

lemma sendAudioChunks_frame_count:
  "length (frames_to m (snd (sendAudioChunks st millis)))
     = (audioBufferIndex st div AUDIO_CHUNK_SIZE)
         * length (filter (\<lambda>d. isActive d \<and> mac d = m) (peers st))"
  unfolding sendAudioChunks_frames Let_def
  by (simp only: length_concat_replicate length_upt diff_zero)


section \<open>The compact frame round trip below \<open>2^31\<close>\<close>

text \<open>
  For eight header fields that are non-negative as \<open>int\<close>, that is below \<open>2^31\<close>,
  and a non-empty payload of arbitrary bytes that fits the encoder's 300-byte buffer,
  the frame the encoder builds
  is \<open>P:\<close>, the eight decimal fields separated by colons, one more colon and the raw
  payload; \<open>parseCompactAudioHeader\<close> accepts it, returns the same eight integers, and
  the bytes from \<open>dataStart\<close> to the end of the frame are the payload, byte for byte.
\<close>

theorem compact_frame_roundtrip:
  assumes "length vals = 8" and "\<forall>v \<in> set vals. 0 \<le> sint v" and "payload \<noteq> []"
    and "int (length (compact_header vals)) + int (length payload) + 1 < 300"
  shows "compact_frame vals payload = compact_header vals @ [0x3A] @ payload
     \<and> parseCompactAudioHeader (compact_frame vals payload)
         = Some (vals, length (compact_header vals) + 1)
     \<and> drop (length (compact_header vals) + 1) (compact_frame vals payload) = payload"
proof -
  have cf: "compact_frame vals payload = compact_header vals @ [0x3A] @ payload"
    using assms(4) by (simp add: compact_frame_def Let_def)
  show ?thesis
    unfolding cf using compact_roundtrip [OF assms(1-3)] by simp
qed

theorem compact_frame_roundtrip_witness:
  "parseCompactAudioHeader (compact_frame [7, 0, 1, 1234, 16000, 16, 128, 128] [0x3A, 0x50, 0, 0xFF])
     = Some ([7, 0, 1, 1234, 16000, 16, 128, 128],
             length (compact_header [7, 0, 1, 1234, 16000, 16, 128, 128]) + 1)
   \<and> drop (length (compact_header [7, 0, 1, 1234, 16000, 16, 128, 128]) + 1)
        (compact_frame [7, 0, 1, 1234, 16000, 16, 128, 128] [0x3A, 0x50, 0, 0xFF])
     = [0x3A, 0x50, 0, 0xFF]"
proof -
  have l: "length [7, 0, 1, 1234, 16000, 16, 128, 128 :: i32] = 8" by simp
  have n: "\<forall>v \<in> set [7, 0, 1, 1234, 16000, 16, 128, 128 :: i32]. 0 \<le> sint v" by simp
  have p: "[0x3A, 0x50, 0, 0xFF :: u8] \<noteq> []" by simp
  have b: "int (length (compact_header [7, 0, 1, 1234, 16000, 16, 128, 128]))
             + int (length [0x3A, 0x50, 0, 0xFF :: u8]) + 1 < 300"
    using compact_header_length [OF l] by simp
  show ?thesis
    by (rule conjunct2 [OF compact_frame_roundtrip [OF l n p b]])
qed


section \<open>Claim C3: every audio frame fits the transport\<close>



section \<open>Hub: what each operation does to the registry\<close>

lemma find_mac_None: "find_mac ds m = None \<longleftrightarrow> m \<notin> mac ` set ds"
  by (induction ds) auto

lemma find_mac_Some:
  "find_mac ds m = Some i \<Longrightarrow> i < length ds \<and> mac (ds ! i) = m"
  by (induction ds arbitrary: i) (auto split: if_splits)

lemma find_mac_distinct:
  "distinct (map mac ds) \<Longrightarrow> i < length ds \<Longrightarrow> find_mac ds (mac (ds ! i)) = Some i"
proof (induction ds arbitrary: i)
  case Nil
  then show ?case by simp
next
  case (Cons d ds)
  show ?case
  proof (cases i)
    case 0
    then show ?thesis by simp
  next
    case (Suc j)
    then have j: "j < length ds" using Cons.prems by simp
    then have "mac (ds ! j) \<in> mac ` set ds" by simp
    then have "mac d \<noteq> mac (ds ! j)" using Cons.prems(1) by auto
    then show ?thesis
      using Suc j Cons by simp
  qed
qed

lemma shift_devices_length: "length (shift_devices devs j n) = length devs"
  by (induction devs j n rule: shift_devices.induct) (subst shift_devices.simps, simp)

lemma shift_devices_take:
  "j < n \<Longrightarrow> n \<le> length devs \<Longrightarrow>
   take (n - 1) (shift_devices devs j n) = take j devs @ take (n - 1 - j) (drop (j + 1) devs)"
proof (induction devs j n rule: shift_devices.induct)
  case (1 devs j n)
  show ?case
  proof (cases "j + 1 < n")
    case False
    then have "n - 1 = j" using 1(2) by simp
    then show ?thesis
      using False by (subst shift_devices.simps) simp
  next
    case True
    let ?devs = "devs[j := devs ! (j + 1)]"
    have ih: "take (n - 1) (shift_devices ?devs (j + 1) n)
            = take (j + 1) ?devs @ take (n - 1 - (j + 1)) (drop (j + 1 + 1) ?devs)"
      using 1(1) [OF True] True 1(3) by simp
    have a: "take (j + 1) ?devs = take j devs @ [devs ! (j + 1)]"
      using True 1(3) by (simp add: take_Suc_conv_app_nth)
    have b: "drop (j + 1 + 1) ?devs = drop (j + 2) devs"
      by simp
    have c: "drop (j + 1) devs = devs ! (j + 1) # drop (j + 2) devs"
      using True 1(3) by (simp add: Cons_nth_drop_Suc)
    have d: "n - 1 - j = Suc (n - 1 - (j + 1))"
      using True by simp
    have "shift_devices devs j n = shift_devices ?devs (j + 1) n"
      using True by (subst shift_devices.simps) simp
    then have "take (n - 1) (shift_devices devs j n)
        = take (j + 1) ?devs @ take (n - 1 - (j + 1)) (drop (j + 1 + 1) ?devs)"
      using ih by simp
    also have "\<dots> = (take j devs @ [devs ! (j + 1)])
        @ take (n - 1 - (j + 1)) (drop (j + 2) devs)"
      by (simp only: a b)
    also have "\<dots> = take j devs
        @ take (Suc (n - 1 - (j + 1))) (devs ! (j + 1) # drop (j + 2) devs)"
      by simp
    also have "\<dots> = take j devs @ take (n - 1 - j) (drop (j + 1) devs)"
      by (simp only: c d)
    finally show ?thesis .
  qed
qed

lemma shift_devices_drop:
  "n \<le> length devs \<Longrightarrow> drop n (shift_devices devs j n) = drop n devs"
proof (induction devs j n rule: shift_devices.induct)
  case (1 devs j n)
  show ?case
  proof (cases "j + 1 < n")
    case False
    then show ?thesis by (subst shift_devices.simps) simp
  next
    case True
    then show ?thesis
      using 1 by (subst shift_devices.simps) simp
  qed
qed

lemma peers_length: "meshDeviceCount st \<le> length (meshDevices st) \<Longrightarrow>
    length (peers st) = meshDeviceCount st"
  by (simp add: peers_def)

lemma remove_peers:
  assumes "meshDeviceCount st \<le> length (meshDevices st)" "find_mac (peers st) m = Some i"
  shows "removeDeviceFromMesh st m =
           (True, st\<lparr>meshDevices := shift_devices (meshDevices st) i (meshDeviceCount st),
                     meshDeviceCount := meshDeviceCount st - 1\<rparr>)"
    and "peers (snd (removeDeviceFromMesh st m)) = take i (peers st) @ drop (i + 1) (peers st)"
proof -
  show r: "removeDeviceFromMesh st m =
           (True, st\<lparr>meshDevices := shift_devices (meshDevices st) i (meshDeviceCount st),
                     meshDeviceCount := meshDeviceCount st - 1\<rparr>)"
    using assms(2) by (simp add: removeDeviceFromMesh_def)
  have i: "i < meshDeviceCount st"
    using find_mac_Some [OF assms(2)] assms(1) by (simp add: peers_def)
  have "peers (snd (removeDeviceFromMesh st m))
      = take (meshDeviceCount st - 1) (shift_devices (meshDevices st) i (meshDeviceCount st))"
    by (simp add: r peers_def)
  also have "\<dots> = take i (meshDevices st)
      @ take (meshDeviceCount st - 1 - i) (drop (i + 1) (meshDevices st))"
    using i assms(1) by (rule shift_devices_take)
  also have "\<dots> = take i (peers st) @ drop (i + 1) (peers st)"
    using i by (simp add: peers_def drop_take min_def)
  finally show "peers (snd (removeDeviceFromMesh st m)) = take i (peers st) @ drop (i + 1) (peers st)" .
qed

lemma distinct_remove_nth:
  "distinct (map f xs) \<Longrightarrow> distinct (map f (take i xs @ drop (i + 1) xs))"
proof -
  assume d: "distinct (map f xs)"
  have "map f xs = map f (take i xs) @ map f (drop i xs)"
    by (metis append_take_drop_id map_append)
  then have "distinct (map f (take i xs) @ map f (drop i xs))" using d by simp
  moreover have "set (map f (drop (i + 1) xs)) \<subseteq> set (map f (drop i xs))"
    by (metis Suc_eq_plus1 drop_drop image_mono set_drop_subset list.set_map add.commute)
  moreover have "distinct (map f (drop (i + 1) xs))"
    using d by (simp flip: drop_map)
  ultimately show ?thesis
    by auto
qed

lemma remove_registry_ok:
  assumes "registry_ok st"
  shows "registry_ok (snd (removeDeviceFromMesh st m))"
proof (cases "find_mac (peers st) m")
  case None
  then show ?thesis using assms by (simp add: removeDeviceFromMesh_def)
next
  case (Some i)
  have c: "meshDeviceCount st \<le> length (meshDevices st)"
    using assms by (simp add: registry_ok_def)
  have "distinct (map mac (peers st))"
    using assms by (simp add: registry_ok_def)
  then have "distinct (map mac (take i (peers st) @ drop (i + 1) (peers st)))"
    by (rule distinct_remove_nth)
  then have "distinct (map mac (peers (snd (removeDeviceFromMesh st m))))"
    by (simp only: remove_peers(2) [OF c Some])
  moreover have "meshDeviceCount st - 1 \<le> MAX_MESH_DEVICES"
    using assms by (auto simp add: registry_ok_def)
  ultimately show ?thesis
    using assms by (simp add: remove_peers(1) [OF c Some] registry_ok_def shift_devices_length)
qed

lemma same_rest_refl: "same_rest st st"
  by (simp add: same_rest_def)

lemma same_rest_trans: "same_rest a b \<Longrightarrow> same_rest b c \<Longrightarrow> same_rest a c"
  by (simp add: same_rest_def)

lemma shrinks_refl: "registry_ok st \<Longrightarrow> shrinks st st"
  by (simp add: shrinks_def same_rest_refl)

lemma shrinks_trans: "shrinks a b \<Longrightarrow> shrinks b c \<Longrightarrow> shrinks a c"
proof -
  assume ab: "shrinks a b" and bc: "shrinks b c"
  have "same_rest a c"
    using ab bc same_rest_trans [of a b c] by (simp add: shrinks_def)
  moreover have "set (peers c) \<subseteq> set (peers a)"
    using ab bc unfolding shrinks_def by blast
  moreover have "\<forall>d \<in> set (peers a). \<not> isActive d \<longrightarrow> d \<in> set (peers c)"
    using ab bc unfolding shrinks_def by blast
  ultimately show ?thesis
    using bc by (simp add: shrinks_def)
qed

lemma set_remove_nth:
  "i < length xs \<Longrightarrow> set xs - {xs ! i} \<subseteq> set (take i xs @ drop (i + 1) xs)"
proof
  fix x assume i: "i < length xs" and x: "x \<in> set xs - {xs ! i}"
  then obtain k where k: "k < length xs" "xs ! k = x" "k \<noteq> i"
    by (metis DiffD1 DiffD2 in_set_conv_nth insertI1)
  show "x \<in> set (take i xs @ drop (i + 1) xs)"
  proof (cases "k < i")
    case True
    then have "take i xs ! k = x" using k by simp
    moreover have "k < length (take i xs)" using True i by simp
    ultimately have "x \<in> set (take i xs)" by (metis nth_mem)
    then show ?thesis by simp
  next
    case False
    then have ki: "i + 1 \<le> k" using k(3) by simp
    then have "drop (i + 1) xs ! (k - (i + 1)) = x" using k by simp
    moreover have "k - (i + 1) < length (drop (i + 1) xs)" using ki k(1) by simp
    ultimately have "x \<in> set (drop (i + 1) xs)" by (metis nth_mem)
    then show ?thesis by simp
  qed
qed

lemma set_remove_nth_subset: "set (take i xs @ drop (i + 1) xs) \<subseteq> set xs"
  by (auto dest: in_set_takeD in_set_dropD)

lemma peers_nth: "i < meshDeviceCount st \<Longrightarrow> peers st ! i = meshDevices st ! i"
  by (simp add: peers_def)

lemma remove_entry:
  assumes ok: "registry_ok st" and i: "i < meshDeviceCount st"
  shows "\<exists>st'. removeDeviceFromMesh st (mac (meshDevices st ! i)) = (True, st')
           \<and> registry_ok st' \<and> same_rest st st'
           \<and> peers st' = take i (peers st) @ drop (i + 1) (peers st)"
proof -
  have c: "meshDeviceCount st \<le> length (meshDevices st)"
    using ok by (simp add: registry_ok_def)
  have l: "i < length (peers st)" using i c by (simp add: peers_def)
  have f: "find_mac (peers st) (mac (meshDevices st ! i)) = Some i"
    using find_mac_distinct [of "peers st" i] ok l i by (simp add: registry_ok_def peers_nth)
  let ?st' = "st\<lparr>meshDevices := shift_devices (meshDevices st) i (meshDeviceCount st),
                  meshDeviceCount := meshDeviceCount st - 1\<rparr>"
  have r: "removeDeviceFromMesh st (mac (meshDevices st ! i)) = (True, ?st')"
    using remove_peers(1) [OF c f] .
  have p: "peers ?st' = take i (peers st) @ drop (i + 1) (peers st)"
    using remove_peers(2) [OF c f] r by simp
  have o: "registry_ok ?st'"
    using remove_registry_ok [OF ok, of "mac (meshDevices st ! i)"] r by simp
  have s: "same_rest st ?st'" by (simp add: same_rest_def)
  show ?thesis using r p o s by blast
qed

lemma remove_active_shrinks:
  assumes ok: "registry_ok st" and i: "i < meshDeviceCount st"
    and act: "isActive (meshDevices st ! i)"
  shows "\<exists>st'. removeDeviceFromMesh st (mac (meshDevices st ! i)) = (True, st')
           \<and> shrinks st st'"
proof -
  obtain st' where st': "removeDeviceFromMesh st (mac (meshDevices st ! i)) = (True, st')"
      "registry_ok st'" "same_rest st st'"
      "peers st' = take i (peers st) @ drop (i + 1) (peers st)"
    using remove_entry [OF ok i] by blast
  have l: "i < length (peers st)"
    using ok i by (simp add: peers_def registry_ok_def)
  have sub: "set (peers st') \<subseteq> set (peers st)"
    unfolding st'(4) by (rule set_remove_nth_subset)
  have keep: "\<forall>d \<in> set (peers st). \<not> isActive d \<longrightarrow> d \<in> set (peers st')"
  proof (intro ballI impI)
    fix d assume d: "d \<in> set (peers st)" "\<not> isActive d"
    then have "d \<noteq> peers st ! i" using act i by (auto simp add: peers_nth)
    then have "d \<in> set (peers st) - {peers st ! i}" using d by simp
    then show "d \<in> set (peers st')"
      unfolding st'(4) using set_remove_nth [OF l] by blast
  qed
  show ?thesis
    using st'(1,2,3) sub keep by (auto simp add: shrinks_def)
qed

lemma cleanup_loop_spec:
  "registry_ok st \<Longrightarrow> i \<le> meshDeviceCount st \<Longrightarrow>
   registry_ok (cleanup_loop now i st) \<and> same_rest st (cleanup_loop now i st)
   \<and> peers (cleanup_loop now i st)
       = take i (peers st) @ filter (\<lambda>d. \<not> stale now d) (drop i (peers st))"
proof (induction now i st rule: cleanup_loop.induct)
  case (1 now i st)
  have c: "meshDeviceCount st \<le> MAX_MESH_DEVICES" "length (meshDevices st) = MAX_MESH_DEVICES"
    using 1(4) by (simp_all add: registry_ok_def)
  have pl: "length (peers st) = meshDeviceCount st"
    using c by (simp add: peers_def)
  show ?case
  proof (cases "i < meshDeviceCount st")
    case False
    then have "i = meshDeviceCount st" using 1(5) by simp
    then show ?thesis
      using 1(4) pl by (subst (1 2 3) cleanup_loop.simps) (simp add: same_rest_refl)
  next
    case True
    have g: "\<not> MAX_MESH_DEVICES \<le> i" using True c by simp
    have "drop i (peers st) = peers st ! i # drop (Suc i) (peers st)"
      using True pl by (simp add: Cons_nth_drop_Suc)
    then have dr: "drop i (peers st) = meshDevices st ! i # drop (Suc i) (peers st)"
      using True by (simp add: peers_nth)
    show ?thesis
    proof (cases "isActive (meshDevices st ! i)
                \<and> DEVICE_TIMEOUT < now - lastSeen (meshDevices st ! i)")
      case False
      have step: "cleanup_loop now i st = cleanup_loop now (i + 1) st"
        using True g False by (subst cleanup_loop.simps) auto
      have ih: "registry_ok (cleanup_loop now (i + 1) st)
         \<and> same_rest st (cleanup_loop now (i + 1) st)
         \<and> peers (cleanup_loop now (i + 1) st)
            = take (i + 1) (peers st) @ filter (\<lambda>d. \<not> stale now d) (drop (i + 1) (peers st))"
        using 1(3) [OF True g False 1(4)] True by simp
      have ns: "\<not> stale now (meshDevices st ! i)"
        using False by (simp add: stale_def)
      have "take (Suc i) (peers st) = take i (peers st) @ [peers st ! i]"
        using True pl by (simp add: take_Suc_conv_app_nth)
      then have tk: "take (Suc i) (peers st) = take i (peers st) @ [meshDevices st ! i]"
        using True by (simp add: peers_nth)
      show ?thesis
        unfolding step using ih ns by (simp add: dr tk)
    next
      case stale: True
      obtain st' where st': "removeDeviceFromMesh st (mac (meshDevices st ! i)) = (True, st')"
          "registry_ok st'" "same_rest st st'"
          "peers st' = take i (peers st) @ drop (i + 1) (peers st)"
        using remove_entry [OF 1(4) True] by blast
      have step: "cleanup_loop now i st = cleanup_loop now i st'"
        using True g stale st'(1) by (subst cleanup_loop.simps) simp
      have cnt: "meshDeviceCount st' = meshDeviceCount st - 1"
        using st'(1) True by (auto simp add: removeDeviceFromMesh_def split: option.splits)
      have ih: "registry_ok (cleanup_loop now i st')
         \<and> same_rest st' (cleanup_loop now i st')
         \<and> peers (cleanup_loop now i st')
            = take i (peers st') @ filter (\<lambda>d. \<not> stale now d) (drop i (peers st'))"
        using 1(1) [OF True g stale st'(1) [symmetric] refl st'(2)] True cnt by simp
      have st: "stale now (meshDevices st ! i)"
        using stale by (simp add: stale_def)
      have t: "take i (peers st') = take i (peers st)" "drop i (peers st') = drop (Suc i) (peers st)"
        using True pl by (simp_all add: st'(4))
      show ?thesis
        unfolding step using ih st st'(3) same_rest_trans by (auto simp add: dr t)
    qed
  qed
qed

lemma frames_to_ctrl: "frames_to m (outs @ [CtrlSend x]) = frames_to m outs"
  by (simp add: frames_to_append)

lemma send_loop_shrinks:
  "registry_ok st \<Longrightarrow>
   \<exists>st' outs'. send_loop src guard tx k i st outs = Inr (st', outs') \<and> shrinks st st'
      \<and> frames_to m outs' = frames_to m outs"
proof (induction src guard tx k i st outs rule: send_loop.induct)
  case (1 src guard tx k i st outs)
  note ok = 1(6)
  show ?case
  proof (cases "i < meshDeviceCount st")
    case False
    then show ?thesis
      using ok by (subst send_loop.simps) (simp add: shrinks_refl)
  next
    case lt: True
    show ?thesis
    proof (cases "guard \<and> MAX_MESH_DEVICES \<le> i")
      case True
      then show ?thesis
        using lt ok by (subst send_loop.simps) (simp add: shrinks_refl)
    next
      case g: False
      show ?thesis
      proof (cases "isActive (meshDevices st ! i)
                \<and> (src = None \<or> src \<noteq> Some (mac (meshDevices st ! i)))")
        case False
        have step: "send_loop src guard tx k i st outs = send_loop src guard tx k (i + 1) st outs"
          using lt g False by (subst send_loop.simps) auto
        show ?thesis
          unfolding step using 1(5) [OF lt g False ok] .
      next
        case act: True
        then have a: "isActive (meshDevices st ! i)" by simp
        obtain st1 where st1: "removeDeviceFromMesh st (mac (meshDevices st ! i)) = (True, st1)"
            "shrinks st st1"
          using remove_active_shrinks [OF ok lt a] by blast
        have ok1: "registry_ok st1" using st1(2) by (simp add: shrinks_def)
        show ?thesis
        proof (cases "fst (tx k) = ESP_OK")
          case peer_ok: True
          show ?thesis
          proof (cases "snd (tx k) = ESP_OK")
            case True
            have step: "send_loop src guard tx k i st outs
                = send_loop src guard tx (k + 1) (i + 1) st
                    (outs @ [CtrlSend (mac (meshDevices st ! i))])"
              using lt g act peer_ok True by (subst send_loop.simps) auto
            show ?thesis
              unfolding step using 1(1) [OF lt g act peer_ok True ok]
              by (simp add: frames_to_ctrl)
          next
            case not_ok: False
            show ?thesis
            proof (cases "snd (tx k) = ESP_ERR_ESPNOW_ARG \<or> snd (tx k) = ESP_ERR_ESPNOW_NOT_FOUND")
              case True
              have step: "send_loop src guard tx k i st outs
                  = send_loop src guard tx (k + 1) i st1 outs"
                using lt g act peer_ok not_ok True st1(1) by (subst send_loop.simps) auto
              obtain st' outs' where r: "send_loop src guard tx (k + 1) i st1 outs = Inr (st', outs')"
                  "shrinks st1 st'" "frames_to m outs' = frames_to m outs"
                using 1(2) [OF lt g act peer_ok not_ok True st1(1) [symmetric] refl ok1] by blast
              show ?thesis
                unfolding step using r shrinks_trans [OF st1(2) r(2)] by blast
            next
              case False
              have step: "send_loop src guard tx k i st outs
                  = send_loop src guard tx (k + 1) (i + 1) st outs"
                using lt g act peer_ok not_ok False by (subst send_loop.simps) auto
              show ?thesis
                unfolding step using 1(3) [OF lt g act peer_ok not_ok False ok] .
            qed
          qed
        next
          case no_peer: False
          have step: "send_loop src guard tx k i st outs
              = send_loop src guard tx (k + 1) i st1 outs"
            using lt g act no_peer st1(1) by (subst send_loop.simps) auto
          obtain st' outs' where r: "send_loop src guard tx (k + 1) i st1 outs = Inr (st', outs')"
              "shrinks st1 st'" "frames_to m outs' = frames_to m outs"
            using 1(4) [OF lt g act no_peer st1(1) [symmetric] refl ok1] by blast
          show ?thesis
            unfolding step using r shrinks_trans [OF st1(2) r(2)] by blast
        qed
      qed
    qed
  qed
qed

lemma same_registry_peers: "same_registry st st' \<Longrightarrow> peers st' = peers st"
  by (simp add: same_registry_def peers_def)

lemma same_registry_undisturbed:
  "registry_ok st \<Longrightarrow> same_registry st st' \<Longrightarrow> undisturbed m st st'"
  by (simp add: undisturbed_def registered_def same_registry_peers)
     (simp add: registry_ok_def same_registry_def peers_def)

lemma shrinks_undisturbed: "shrinks st st' \<Longrightarrow> undisturbed m st st'"
  unfolding shrinks_def undisturbed_def registered_def by auto

lemma undisturbed_trans:
  "undisturbed m a b \<Longrightarrow> undisturbed m b c \<Longrightarrow> undisturbed m a c"
  unfolding undisturbed_def by blast

lemma peers_update:
  "peers (st\<lparr>meshDevices := (meshDevices st)[i := x]\<rparr>) = (peers st)[i := x]"
  by (simp add: peers_def take_update_swap)

lemma touch_entry:
  assumes ok: "registry_ok st" and f: "find_mac (peers st) m' = Some i"
    and x: "mac x = mac (meshDevices st ! i)" and m: "m \<noteq> m'"
  shows "undisturbed m st (st\<lparr>meshDevices := (meshDevices st)[i := x]\<rparr>)"
proof -
  let ?st' = "st\<lparr>meshDevices := (meshDevices st)[i := x]\<rparr>"
  have il: "i < length (peers st)" and im: "mac (peers st ! i) = m'"
    using find_mac_Some [OF f] by simp_all
  have ic: "i < meshDeviceCount st" using il by (simp add: peers_def)
  have p: "peers ?st' = (peers st)[i := x]" by (rule peers_update)
  have macs: "map mac (peers ?st') = map mac (peers st)"
    unfolding p using x il ic by (simp add: map_update peers_nth list_update_same_conv)
  have ok': "registry_ok ?st'"
    using ok macs by (simp add: registry_ok_def)
  have keep: "\<forall>d \<in> set (peers st). mac d = m \<and> \<not> isActive d \<longrightarrow> d \<in> set (peers ?st')"
  proof (intro ballI impI)
    fix d assume d: "d \<in> set (peers st)" "mac d = m \<and> \<not> isActive d"
    then obtain k where k: "k < length (peers st)" "peers st ! k = d"
      by (metis in_set_conv_nth)
    then have "k \<noteq> i" using im d(2) m by auto
    then have "(peers st)[i := x] ! k = d" using k by simp
    then show "d \<in> set (peers ?st')"
      unfolding p using k(1) by (metis length_list_update nth_mem)
  qed
  have reg: "registered m ?st' = registered m st"
    by (simp add: registered_def macs)
  show ?thesis
    using ok' keep reg by (simp add: undisturbed_def)
qed

lemma heartbeat_undisturbed:
  "registry_ok st \<Longrightarrow> m \<noteq> m' \<Longrightarrow> undisturbed m st (updateDeviceHeartbeat st m' now)"
proof (cases "find_mac (peers st) m'")
  case None
  assume "registry_ok st"
  then show ?thesis
    using None by (simp add: updateDeviceHeartbeat_def undisturbed_def)
next
  case (Some i)
  assume "registry_ok st" "m \<noteq> m'"
  then show ?thesis
    using Some touch_entry [of st m' i _ m] by (simp add: updateDeviceHeartbeat_def)
qed

lemma ready_undisturbed:
  "registry_ok st \<Longrightarrow> m \<noteq> m' \<Longrightarrow> undisturbed m st (mark_ready st m' now)"
proof (cases "find_mac (peers st) m'")
  case None
  assume "registry_ok st"
  then show ?thesis
    using None by (simp add: mark_ready_def undisturbed_def)
next
  case (Some i)
  assume "registry_ok st" "m \<noteq> m'"
  then show ?thesis
    using Some touch_entry [of st m' i _ m] by (simp add: mark_ready_def)
qed

lemma leave_undisturbed:
  assumes ok: "registry_ok st" and m: "m \<noteq> m'"
  shows "undisturbed m st (snd (removeDeviceFromMesh st m'))"
proof (cases "find_mac (peers st) m'")
  case None
  then show ?thesis
    using ok by (simp add: removeDeviceFromMesh_def undisturbed_def)
next
  case (Some i)
  have il: "i < length (peers st)" and im: "mac (peers st ! i) = m'"
    using find_mac_Some [OF Some] by simp_all
  have c: "meshDeviceCount st \<le> length (meshDevices st)"
    using ok by (simp add: registry_ok_def)
  have p: "peers (snd (removeDeviceFromMesh st m')) = take i (peers st) @ drop (i + 1) (peers st)"
    using remove_peers(2) [OF c Some] .
  have keep: "\<forall>d \<in> set (peers st). mac d = m \<and> \<not> isActive d
      \<longrightarrow> d \<in> set (peers (snd (removeDeviceFromMesh st m')))"
  proof (intro ballI impI)
    fix d assume d: "d \<in> set (peers st)" "mac d = m \<and> \<not> isActive d"
    then have "d \<noteq> peers st ! i" using im m by auto
    then have "d \<in> set (peers st) - {peers st ! i}" using d by simp
    then show "d \<in> set (peers (snd (removeDeviceFromMesh st m')))"
      unfolding p using set_remove_nth [OF il] by blast
  qed
  have "set (peers (snd (removeDeviceFromMesh st m'))) \<subseteq> set (peers st)"
    unfolding p by (rule set_remove_nth_subset)
  then have reg: "\<not> registered m st \<longrightarrow> \<not> registered m (snd (removeDeviceFromMesh st m'))"
    by (auto simp add: registered_def)
  show ?thesis
    using remove_registry_ok [OF ok, of m'] keep reg by (simp add: undisturbed_def)
qed

lemma join_undisturbed:
  assumes ok: "registry_ok st" and m: "m \<noteq> m'"
  shows "undisturbed m st (snd (addDeviceToMesh st m' name type now addPeer))"
proof (cases "find_mac (peers st) m'")
  case (Some i)
  then show ?thesis
    using ok m touch_entry [of st m' i _ m] by (simp add: addDeviceToMesh_def)
next
  case None
  show ?thesis
  proof (cases "meshDeviceCount st < MAX_MESH_DEVICES")
    case False
    then show ?thesis
      using None ok by (simp add: addDeviceToMesh_def undisturbed_def)
  next
    case True
    let ?n = "meshDeviceCount st"
    let ?d = "(meshDevices st ! ?n)\<lparr>mac := m', deviceName := name, deviceType := type,
                      lastSeen := now, isActive := False, isCoordinator := False,
                      audioQuality := 100\<rparr>"
    let ?st1 = "st\<lparr>meshDevices := (meshDevices st)[?n := ?d]\<rparr>"
    have len: "length (meshDevices st) = MAX_MESH_DEVICES"
      using ok by (simp add: registry_ok_def)
    have p1: "peers ?st1 = peers st"
      by (simp add: peers_def)
    have p2: "peers (?st1\<lparr>meshDeviceCount := ?n + 1\<rparr>) = peers st @ [?d]"
      using True len by (simp add: peers_def take_Suc_conv_app_nth)
    have new: "m' \<notin> mac ` set (peers st)"
      using None by (simp add: find_mac_None)
    show ?thesis
    proof (cases "addPeer = ESP_OK")
      case False
      have r: "snd (addDeviceToMesh st m' name type now addPeer) = ?st1"
        using None True False by (simp add: addDeviceToMesh_def Let_def)
      have "registry_ok ?st1"
        using ok p1 by (simp add: registry_ok_def)
      then show ?thesis
        unfolding r undisturbed_def registered_def by (simp add: p1)
    next
      case yes: True
      have r: "snd (addDeviceToMesh st m' name type now addPeer)
             = ?st1\<lparr>meshDeviceCount := ?n + 1\<rparr>"
        using None True yes by (simp add: addDeviceToMesh_def Let_def)
      have "distinct (map mac (peers st @ [?d]))"
        using ok new by (simp add: registry_ok_def)
      then have dd: "distinct (map mac (peers (?st1\<lparr>meshDeviceCount := ?n + 1\<rparr>)))"
        by (simp only: p2)
      have ok': "registry_ok (?st1\<lparr>meshDeviceCount := ?n + 1\<rparr>)"
        unfolding registry_ok_def using ok True dd by (simp add: registry_ok_def)
      have keep: "\<forall>d \<in> set (peers st). mac d = m \<and> \<not> isActive d
          \<longrightarrow> d \<in> set (peers (?st1\<lparr>meshDeviceCount := ?n + 1\<rparr>))"
        by (simp only: p2) simp
      have reg: "\<not> registered m st
          \<longrightarrow> \<not> registered m (?st1\<lparr>meshDeviceCount := ?n + 1\<rparr>)"
        unfolding registered_def using m by (simp only: p2) simp
      show ?thesis
        unfolding r undisturbed_def using ok' keep reg by blast
    qed
  qed
qed

lemma undisturbed_refl: "registry_ok st \<Longrightarrow> undisturbed m st st"
  by (simp add: undisturbed_def)

lemma same_registry_refl: "same_registry st st"
  by (simp add: same_registry_def)

lemma same_registry_trans: "same_registry a b \<Longrightarrow> same_registry b c \<Longrightarrow> same_registry a c"
  by (simp add: same_registry_def)

lemma sendAudioChunks_same_registry: "same_registry st (fst (sendAudioChunks st millis))"
  by (simp add: sendAudioChunks_def same_registry_def Let_def)

lemma force_send_same_registry: "same_registry st (fst (force_send st millis))"
  by (simp add: force_send_def sendAudioChunks_same_registry same_registry_refl)

lemma evict_oldest_same_registry: "evict_oldest st len = Inr st' \<Longrightarrow> same_registry st st'"
  by (auto simp add: evict_oldest_def same_registry_def Let_def split: if_splits)

lemma append_audio_same_registry: "same_registry st (append_audio st data len)"
  by (simp add: append_audio_def same_registry_def)

lemma frames_unregistered:
  "\<not> registered m st \<Longrightarrow> frames_to m (snd (sendAudioChunks st millis)) = []"
proof -
  assume "\<not> registered m st"
  then have "filter (\<lambda>d. isActive d \<and> mac d = m) (peers st) = []"
    by (auto simp add: registered_def filter_empty_conv)
  then have "length (frames_to m (snd (sendAudioChunks st millis))) = 0"
    by (simp add: sendAudioChunks_frame_count)
  then show ?thesis by simp
qed

lemma registered_same_registry:
  "same_registry st st' \<Longrightarrow> registered m st' = registered m st"
  by (simp add: registered_def same_registry_peers)

lemma force_send_frames:
  "\<not> registered m st \<Longrightarrow> frames_to m (snd (force_send st millis)) = []"
  by (simp add: force_send_def frames_unregistered)

lemma store_audio_registry:
  assumes "store_audio st data len millis = Inr (st', outs)"
  shows "same_registry st st' \<and> (\<not> registered m st \<longrightarrow> frames_to m outs = [])"
proof (cases "AUDIO_BUFFER_SIZE < audioBufferIndex st + len")
  case False
  then show ?thesis
    using assms append_audio_same_registry [of st data len]
    by (auto simp add: store_audio_def)
next
  case True
  then obtain st1 where st1: "evict_oldest (fst (force_send st millis)) len = Inr st1"
      "st' = append_audio st1 data len" "outs = snd (force_send st millis)"
    using assms by (auto simp add: store_audio_def split: sum.splits)
  have "same_registry st st1"
    using same_registry_trans [OF force_send_same_registry evict_oldest_same_registry [OF st1(1)]] .
  then have "same_registry st st'"
    unfolding st1(2) using append_audio_same_registry same_registry_trans by blast
  then show ?thesis
    using st1(3) force_send_frames by simp
qed

lemma addAudioData_registry:
  assumes "addAudioData st data len millis = Inr (st', outs)"
  shows "same_registry st st' \<and> (\<not> registered m st \<longrightarrow> frames_to m outs = [])"
proof (cases "\<not> isAudioStreaming st \<or> len = 0")
  case True
  then show ?thesis
    using assms by (auto simp add: addAudioData_def same_registry_refl split: if_splits)
next
  case False
  then obtain st1 outs1 where s: "store_audio st data len millis = Inr (st1, outs1)"
    using assms by (auto simp add: addAudioData_def split: sum.splits)
  have r1: "same_registry st st1" "\<not> registered m st \<longrightarrow> frames_to m outs1 = []"
    using store_audio_registry [OF s, of m] by simp_all
  show ?thesis
  proof (cases "AUDIO_CHUNK_SIZE \<le> audioBufferIndex st1")
    case no: False
    then have "st' = st1" "outs = outs1"
      using assms False s by (simp_all add: addAudioData_def)
    then show ?thesis using r1 by simp
  next
    case True
    then have e: "st' = fst (sendAudioChunks st1 millis)"
        "outs = outs1 @ snd (sendAudioChunks st1 millis)"
      using assms False s by (simp_all add: addAudioData_def)
    have a: "same_registry st st'"
      unfolding e(1) using r1(1) sendAudioChunks_same_registry same_registry_trans by blast
    have b: "\<not> registered m st \<longrightarrow> frames_to m outs = []"
      unfolding e(2) using r1 frames_unregistered [of m st1 millis]
      by (simp add: frames_to_append registered_same_registry [OF r1(1)])
    show ?thesis using a b by simp
  qed
qed

lemma OnDataRecv_undisturbed:
  assumes ok: "registry_ok st" and m: "m \<noteq> m'"
    and r: "OnDataRecv st m' msg len now addPeer tx = Inr (st', outs)"
  shows "undisturbed m st st' \<and> frames_to m outs = []"
proof (cases msg)
  case (mesh_join name type)
  have "st' = snd (addDeviceToMesh st m' name type now addPeer)"
    using r mesh_join by (auto simp add: OnDataRecv_def split: prod.splits bool.splits)
  moreover have "frames_to m outs = []"
    using r mesh_join by (auto simp add: OnDataRecv_def split: prod.splits bool.splits)
  ultimately show ?thesis
    using join_undisturbed [OF ok m] by simp
next
  case mesh_ready
  then show ?thesis
    using r ready_undisturbed [OF ok m] by (auto simp add: OnDataRecv_def)
next
  case audio_data
  show ?thesis
  proof (cases "\<not> meshNetworkActive st \<or> len \<le> 0")
    case True
    then show ?thesis
      using r audio_data ok
      by (auto simp add: OnDataRecv_def relayAudioToMesh_def undisturbed_refl)
  next
    case False
    obtain st1 outs1 where l: "send_loop (Some m') True tx 0 0 st [] = Inr (st1, outs1)"
        "shrinks st st1" "frames_to m outs1 = frames_to m []"
      using send_loop_shrinks [OF ok, of "Some m'" True tx 0 0 "[]" m] by blast
    have "st' = st1" "outs = outs1 @ [AudioAck m']"
      using r audio_data False l(1) by (auto simp add: OnDataRecv_def relayAudioToMesh_def)
    then show ?thesis
      using l(2,3) shrinks_undisturbed by (simp add: frames_to_append)
  qed
next
  case mesh_heartbeat
  then show ?thesis
    using r heartbeat_undisturbed [OF ok m] by (auto simp add: OnDataRecv_def)
next
  case mesh_leave
  then show ?thesis
    using r leave_undisturbed [OF ok m] by (auto simp add: OnDataRecv_def)
next
  case audio_ack
  then show ?thesis
    using r ok by (auto simp add: OnDataRecv_def undisturbed_refl)
next
  case other_type
  then show ?thesis
    using r ok by (auto simp add: OnDataRecv_def undisturbed_refl)
next
  case parse_failure
  then show ?thesis
    using r ok by (auto simp add: OnDataRecv_def undisturbed_refl)
qed

lemma tick_loop_undisturbed:
  assumes ok: "registry_ok st"
    and r: "(if meshDeviceCount st = 0 then Inr (st, []) else send_loop None False tx 0 0 st [])
            = Inr (st', outs)"
  shows "undisturbed m st st' \<and> frames_to m outs = []"
proof (cases "meshDeviceCount st = 0")
  case True
  then show ?thesis using r ok by (simp add: undisturbed_refl)
next
  case False
  obtain st1 outs1 where l: "send_loop None False tx 0 0 st [] = Inr (st1, outs1)"
      "shrinks st st1" "frames_to m outs1 = frames_to m []"
    using send_loop_shrinks [OF ok, of None False tx 0 0 "[]" m] by blast
  then show ?thesis
    using r False shrinks_undisturbed by auto
qed

lemma cleanup_shrinks:
  assumes ok: "registry_ok st"
  shows "shrinks st (cleanupInactiveDevices st now)"
proof (cases "meshNetworkActive st")
  case False
  then show ?thesis using ok by (simp add: cleanupInactiveDevices_def shrinks_refl)
next
  case True
  have s: "registry_ok (cleanup_loop now 0 st)" "same_rest st (cleanup_loop now 0 st)"
      "peers (cleanup_loop now 0 st) = filter (\<lambda>d. \<not> stale now d) (peers st)"
    using cleanup_loop_spec [OF ok, of 0 now] by simp_all
  have "set (peers (cleanup_loop now 0 st)) \<subseteq> set (peers st)"
    unfolding s(3) by auto
  moreover have "\<forall>d \<in> set (peers st). \<not> isActive d \<longrightarrow> d \<in> set (peers (cleanup_loop now 0 st))"
    unfolding s(3) by (simp add: stale_def)
  ultimately show ?thesis
    using True s(1,2) by (simp add: cleanupInactiveDevices_def shrinks_def)
qed

lemma hub_step_undisturbed:
  assumes ok: "registry_ok st" and e: "\<not> from_mac m e"
    and r: "hub_step e st = Inr (st', outs)"
  shows "undisturbed m st st' \<and> (\<not> registered m st \<longrightarrow> frames_to m outs = [])"
proof (cases e)
  case (Recv m' msg len now addPeer tx)
  then have "m \<noteq> m'" using e by auto
  then show ?thesis
    using OnDataRecv_undisturbed [OF ok _ r [unfolded Recv hub_step.simps]] by simp
next
  case (HeartbeatTick tx)
  show ?thesis
  proof (cases "meshNetworkActive st")
    case True
    then show ?thesis
      using r HeartbeatTick tick_loop_undisturbed [OF ok, of tx st' outs m]
      by (simp add: sendMeshHeartbeat_def)
  next
    case False
    then show ?thesis using r HeartbeatTick ok by (auto simp add: undisturbed_refl)
  qed
next
  case (StatusTick tx)
  show ?thesis
  proof (cases "meshNetworkActive st")
    case True
    then show ?thesis
      using r StatusTick tick_loop_undisturbed [OF ok, of tx st' outs m]
      by (simp add: broadcastMeshStatus_def)
  next
    case False
    then show ?thesis using r StatusTick ok by (auto simp add: undisturbed_refl)
  qed
next
  case (CleanupTick now)
  then show ?thesis
    using r ok shrinks_undisturbed [OF cleanup_shrinks [OF ok, of now], of m]
    by (auto simp add: undisturbed_refl split: if_splits)
next
  case (AudioIn data len millis)
  then show ?thesis
    using r addAudioData_registry [of st data len millis st' outs m]
      same_registry_undisturbed [OF ok, of st' m] by simp
next
  case (SenderTick millis)
  show ?thesis
  proof (cases "isAudioStreaming st \<and> (deviceConnected st \<or> 0 < meshDeviceCount st)")
    case True
    then have "st' = fst (sendAudioChunks st millis)" "outs = snd (sendAudioChunks st millis)"
      using r SenderTick by auto
    then show ?thesis
      using sendAudioChunks_same_registry [of st millis] frames_unregistered [of m st millis]
        same_registry_undisturbed [OF ok, of st' m] by simp
  next
    case False
    then show ?thesis using r SenderTick ok by (auto simp add: undisturbed_refl)
  qed
next
  case BleConnect
  then show ?thesis
    using r same_registry_undisturbed [OF ok, of st' m] by (auto simp add: same_registry_def)
next
  case BleDisconnect
  then show ?thesis
    using r same_registry_undisturbed [OF ok, of st' m] by (auto simp add: same_registry_def)
next
  case StartStream
  then show ?thesis
    using r same_registry_undisturbed [OF ok, of st' m]
    by (auto simp add: same_registry_def startAudioStream_def)
next
  case StopStream
  then show ?thesis
    using r same_registry_undisturbed [OF ok, of st' m]
    by (auto simp add: same_registry_def stopAudioStream_def)
next
  case ClearBuffer
  then show ?thesis
    using r same_registry_undisturbed [OF ok, of st' m]
    by (auto simp add: same_registry_def clear_buffer_def)
qed

lemma hub_run_undisturbed:
  "registry_ok st \<Longrightarrow> \<forall>e \<in> set evs. \<not> from_mac m e \<Longrightarrow> hub_run evs st = Inr (st', outs) \<Longrightarrow>
   undisturbed m st st' \<and> (\<not> registered m st \<longrightarrow> frames_to m outs = [])"
proof (induction evs arbitrary: st outs)
  case Nil
  then show ?case by (simp add: undisturbed_refl)
next
  case (Cons e evs)
  obtain st1 outs1 where s1: "hub_step e st = Inr (st1, outs1)"
    using Cons.prems(3) by (auto split: sum.splits)
  then obtain outs2 where s2: "hub_run evs st1 = Inr (st', outs2)" "outs = outs1 @ outs2"
    using Cons.prems(3) by (auto split: sum.splits)
  have e: "\<not> from_mac m e" and es: "\<forall>e \<in> set evs. \<not> from_mac m e"
    using Cons.prems(2) by simp_all
  have u1: "undisturbed m st st1" "\<not> registered m st \<longrightarrow> frames_to m outs1 = []"
    using hub_step_undisturbed [OF Cons.prems(1) e s1] by simp_all
  have ok1: "registry_ok st1" using u1(1) by (simp add: undisturbed_def)
  have u2: "undisturbed m st1 st'" "\<not> registered m st1 \<longrightarrow> frames_to m outs2 = []"
    using Cons.IH [OF ok1 es s2(1)] by simp_all
  have "\<not> registered m st \<longrightarrow> \<not> registered m st1"
    using u1(1) by (simp add: undisturbed_def)
  then show ?case
    using undisturbed_trans [OF u1(1) u2(1)] u1(2) u2(2) s2(2) by (simp add: frames_to_append)
qed

section \<open>Hub: joining, timing out and waiting\<close>

lemma nth_not_in_rest:
  "distinct xs \<Longrightarrow> i < length xs \<Longrightarrow> xs ! i \<notin> set (take i xs @ drop (i + 1) xs)"
proof -
  assume d: "distinct xs" and i: "i < length xs"
  have "xs = take i xs @ xs ! i # drop (Suc i) xs"
    using i by (rule id_take_nth_drop)
  then have "distinct (take i xs @ xs ! i # drop (Suc i) xs)"
    using d by simp
  then show ?thesis by auto
qed

lemma leave_unregisters:
  assumes ok: "registry_ok st"
  shows "\<not> registered m (snd (removeDeviceFromMesh st m))"
proof (cases "find_mac (peers st) m")
  case None
  then have "snd (removeDeviceFromMesh st m) = st"
    by (simp add: removeDeviceFromMesh_def)
  then show ?thesis
    using None by (simp add: registered_def find_mac_None)
next
  case (Some i)
  have il: "i < length (peers st)" and im: "mac (peers st ! i) = m"
    using find_mac_Some [OF Some] by simp_all
  have c: "meshDeviceCount st \<le> length (meshDevices st)"
    using ok by (simp add: registry_ok_def)
  have p: "peers (snd (removeDeviceFromMesh st m)) = take i (peers st) @ drop (i + 1) (peers st)"
    using remove_peers(2) [OF c Some] .
  have "map mac (peers st) ! i \<notin> set (take i (map mac (peers st)) @ drop (i + 1) (map mac (peers st)))"
    using ok il by (intro nth_not_in_rest) (simp_all add: registry_ok_def)
  then show ?thesis
    unfolding registered_def p using il im by (simp add: take_map drop_map)
qed


lemma waiting_undisturbed: "waiting m st \<Longrightarrow> undisturbed m st st' \<Longrightarrow> waiting m st'"
  unfolding waiting_def undisturbed_def by blast

lemma example_registry_peers:
  "peers example_registry = [example_peer 1 True 0, example_peer 2 False 0]"
  by (simp add: example_registry_def example_hub_def peers_def)

lemma full_registry_peers:
  "peers full_registry = [example_peer 1 True 0, example_peer 2 False 0,
                  example_peer 3 True 0, example_peer 4 False 0]"
  by (simp add: full_registry_def example_hub_def peers_def)

lemma example_registry_ok: "registry_ok example_registry"
  unfolding registry_ok_def example_registry_peers
  by (simp add: example_registry_def example_hub_def MAX_MESH_DEVICES_def example_peer_def)

text \<open>
  Claim C6, as the code has it.  \<open>addDeviceToMesh\<close> looks the address up before it
  looks at the fill level.  A join from an address that is not registered, received
  while the registry holds \<open>MAX_MESH_DEVICES\<close> = 4 peers, is answered with
  ack(status = failed) and leaves the whole Hub state, registry and count included,
  as it was.  A join from an address that is registered (at index \<open>i\<close>) is answered
  with ack(status = joined) at any fill level: no peer is created and the count stays,
  and the \<open>lastSeen\<close> of that peer is set to the current time.
\<close>

theorem join_at_capacity:
  "(meshDeviceCount st = MAX_MESH_DEVICES \<and> \<not> registered m st \<longrightarrow>
      OnDataRecv st m (mesh_join name type) len now addPeer tx
        = Inr (st, [MeshAck m ''failed'' MAX_MESH_DEVICES]))
   \<and> (find_mac (peers st) m = Some i \<longrightarrow>
      OnDataRecv st m (mesh_join name type) len now addPeer tx
        = Inr (st\<lparr>meshDevices := (meshDevices st)[i := (meshDevices st ! i)\<lparr>lastSeen := now\<rparr>]\<rparr>,
               [MeshAck m ''joined'' (meshDeviceCount st)]))"
proof -
  have a: "meshDeviceCount st = MAX_MESH_DEVICES \<and> \<not> registered m st \<longrightarrow>
      OnDataRecv st m (mesh_join name type) len now addPeer tx
        = Inr (st, [MeshAck m ''failed'' MAX_MESH_DEVICES])"
  proof
    assume h: "meshDeviceCount st = MAX_MESH_DEVICES \<and> \<not> registered m st"
    then have "find_mac (peers st) m = None"
      by (simp add: find_mac_None registered_def)
    then show "OnDataRecv st m (mesh_join name type) len now addPeer tx
        = Inr (st, [MeshAck m ''failed'' MAX_MESH_DEVICES])"
      using h by (simp add: OnDataRecv_def addDeviceToMesh_def)
  qed
  have b: "find_mac (peers st) m = Some i \<longrightarrow>
      OnDataRecv st m (mesh_join name type) len now addPeer tx
        = Inr (st\<lparr>meshDevices := (meshDevices st)[i := (meshDevices st ! i)\<lparr>lastSeen := now\<rparr>]\<rparr>,
               [MeshAck m ''joined'' (meshDeviceCount st)])"
    by (simp add: OnDataRecv_def addDeviceToMesh_def)
  from a b show ?thesis by (rule conjI)
qed

theorem join_at_capacity_witness:
  "OnDataRecv full_registry [0x10, 0x00, 0x3B, 0x48, 0x1A, 9]
       (mesh_join ''ESP32S3_Audio_Client'' ''ESP32_Audio_Client'') 120 5000 ESP_OK radio_ok
     = Inr (full_registry, [MeshAck [0x10, 0x00, 0x3B, 0x48, 0x1A, 9] ''failed'' MAX_MESH_DEVICES])
   \<and> OnDataRecv full_registry [0x10, 0x00, 0x3B, 0x48, 0x1A, 1]
       (mesh_join ''ESP32S3_Audio_Client'' ''ESP32_Audio_Client'') 120 5000 ESP_OK radio_ok
     = Inr (full_registry\<lparr>meshDevices := (meshDevices full_registry)
                 [0 := (meshDevices full_registry ! 0)\<lparr>lastSeen := 5000\<rparr>]\<rparr>,
            [MeshAck [0x10, 0x00, 0x3B, 0x48, 0x1A, 1] ''joined'' (meshDeviceCount full_registry)])"
proof -
  have h1: "meshDeviceCount full_registry = MAX_MESH_DEVICES
      \<and> \<not> registered [0x10, 0x00, 0x3B, 0x48, 0x1A, 9] full_registry"
    unfolding registered_def full_registry_peers
    by (simp add: full_registry_def example_hub_def MAX_MESH_DEVICES_def example_peer_def)
  have h2: "find_mac (peers full_registry) [0x10, 0x00, 0x3B, 0x48, 0x1A, 1] = Some 0"
    unfolding full_registry_peers by (simp add: example_peer_def)
  show ?thesis
    using h1 h2
      join_at_capacity [of full_registry "[0x10, 0x00, 0x3B, 0x48, 0x1A, 9]"
        "''ESP32S3_Audio_Client''" "''ESP32_Audio_Client''" 120 5000 ESP_OK radio_ok]
      join_at_capacity [of full_registry "[0x10, 0x00, 0x3B, 0x48, 0x1A, 1]"
        "''ESP32S3_Audio_Client''" "''ESP32_Audio_Client''" 120 5000 ESP_OK radio_ok 0]
    by blast
qed

text \<open>
  The claim as stated covers every join at capacity.  With four peers registered, a
  join from the first of them is acknowledged with status joined, and the registry is
  not the same afterwards: that peer's \<open>lastSeen\<close> has moved from 0 to 5000.
\<close>

theorem join_known_at_capacity_counterexample:
  "OnDataRecv full_registry [0x10, 0x00, 0x3B, 0x48, 0x1A, 1]
       (mesh_join ''ESP32S3_Audio_Client'' ''ESP32_Audio_Client'') 120 5000 ESP_OK radio_ok
     = Inr (example_hub [example_peer 1 True 5000, example_peer 2 False 0,
                         example_peer 3 True 0, example_peer 4 False 0] 4,
            [MeshAck [0x10, 0x00, 0x3B, 0x48, 0x1A, 1] ''joined'' 4])
   \<and> meshDeviceCount full_registry = 4
   \<and> example_hub [example_peer 1 True 5000, example_peer 2 False 0,
                   example_peer 3 True 0, example_peer 4 False 0] 4 \<noteq> full_registry"
proof -
  have f: "find_mac (peers full_registry) [0x10, 0x00, 0x3B, 0x48, 0x1A, 1] = Some 0"
    unfolding full_registry_peers by (simp add: example_peer_def)
  have a: "OnDataRecv full_registry [0x10, 0x00, 0x3B, 0x48, 0x1A, 1]
       (mesh_join ''ESP32S3_Audio_Client'' ''ESP32_Audio_Client'') 120 5000 ESP_OK radio_ok
     = Inr (example_hub [example_peer 1 True 5000, example_peer 2 False 0,
                         example_peer 3 True 0, example_peer 4 False 0] 4,
            [MeshAck [0x10, 0x00, 0x3B, 0x48, 0x1A, 1] ''joined'' 4])"
    by (simp add: OnDataRecv_def addDeviceToMesh_def f)
       (simp add: full_registry_def example_hub_def example_peer_def)
  have b: "example_hub [example_peer 1 True 5000, example_peer 2 False 0,
                   example_peer 3 True 0, example_peer 4 False 0] 4 \<noteq> full_registry"
    by (simp add: full_registry_def example_hub_def example_peer_def)
  have c: "meshDeviceCount full_registry = 4"
    by (simp add: full_registry_def example_hub_def)
  from a b c show ?thesis by simp
qed



text \<open>
  Claim C10.  In a registry as \<open>addDeviceToMesh\<close> keeps it, a registered peer that is
  not active (it joined and never sent ready) is still registered and still not active
  after the sweep, whatever the current time; it stays so through any steps of the Hub
  in which no message from its own address arrives, the sending loops that remove
  peers on a transport failure included; a leave from its address removes it.
\<close>

theorem unready_peer_never_swept:
  assumes "registry_ok st" and "waiting m st"
  shows "waiting m (cleanupInactiveDevices st now)
     \<and> ((\<forall>e \<in> set evs. \<not> from_mac m e) \<and> hub_run evs st = Inr (st', outs) \<longrightarrow> waiting m st')
     \<and> OnDataRecv st m mesh_leave len now addPeer tx = Inr (snd (removeDeviceFromMesh st m), [])
     \<and> \<not> registered m (snd (removeDeviceFromMesh st m))"
proof -
  have a: "waiting m (cleanupInactiveDevices st now)"
    using waiting_undisturbed [OF assms(2) shrinks_undisturbed [OF cleanup_shrinks [OF assms(1)]]] .
  have b: "(\<forall>e \<in> set evs. \<not> from_mac m e) \<and> hub_run evs st = Inr (st', outs) \<longrightarrow> waiting m st'"
    using hub_run_undisturbed [OF assms(1), of evs m st' outs] waiting_undisturbed [OF assms(2)]
    by blast
  have c: "OnDataRecv st m mesh_leave len now addPeer tx = Inr (snd (removeDeviceFromMesh st m), [])"
    by (simp add: OnDataRecv_def)
  show ?thesis
    using a b c leave_unregisters [OF assms(1)] by blast
qed

theorem unready_peer_never_swept_witness:
  "waiting (mac (example_peer 2 False 0)) (cleanupInactiveDevices example_registry 40000)
   \<and> waiting (mac (example_peer 2 False 0))
        (updateDeviceHeartbeat (cleanupInactiveDevices example_registry 40000)
           (mac (example_peer 1 True 0)) 41000)
   \<and> \<not> registered (mac (example_peer 2 False 0))
        (snd (removeDeviceFromMesh example_registry (mac (example_peer 2 False 0))))"
proof -
  let ?c = "cleanupInactiveDevices example_registry 40000"
  let ?evs = "[CleanupTick 40000, Recv (mac (example_peer 1 True 0)) mesh_heartbeat 64 41000 ESP_OK radio_ok]"
  have act: "meshNetworkActive example_registry"
    by (simp add: example_registry_def example_hub_def)
  have w: "waiting (mac (example_peer 2 False 0)) example_registry"
    unfolding waiting_def example_registry_peers by (simp add: example_peer_def)
  have e: "\<forall>e \<in> set ?evs. \<not> from_mac (mac (example_peer 2 False 0)) e"
    by (simp add: example_peer_def)
  have r: "hub_run ?evs example_registry
      = Inr (updateDeviceHeartbeat ?c (mac (example_peer 1 True 0)) 41000, [])"
    using act by (simp add: OnDataRecv_def)
  show ?thesis
    using unready_peer_never_swept [OF example_registry_ok w, of 40000 ?evs
        "updateDeviceHeartbeat ?c (mac (example_peer 1 True 0)) 41000" "[]"] e r
    by blast
qed

section \<open>Hub: the accumulator\<close>

lemma memset_all: "length buf = n \<Longrightarrow> memset buf 0 0 n = replicate n 0"
  by (simp add: memset_def)

lemma sendAudioChunks_index:
  "audioBufferIndex (fst (sendAudioChunks st millis))
     = (if meshDeviceCount st = 0 \<and> \<not> deviceConnected st then 0
        else audioBufferIndex st mod AUDIO_CHUNK_SIZE)"
  by (simp add: sendAudioChunks_def Let_def)

lemma compaction_buffer:
  assumes "length buf = AUDIO_BUFFER_SIZE" "k + r \<le> AUDIO_BUFFER_SIZE"
  shows "memset (memmove buf 0 k r) r 0 (AUDIO_BUFFER_SIZE - r)
       = take r (drop k buf) @ replicate (AUDIO_BUFFER_SIZE - r) 0"
proof -
  have l: "length (take r (drop k buf)) = r"
    using assms by simp
  have m: "memmove buf 0 k r = take r (drop k buf) @ drop r buf"
    by (simp add: memmove_def memcpy_def)
  have "length (memmove buf 0 k r) = AUDIO_BUFFER_SIZE"
    unfolding m using assms l by simp
  then have d: "drop (r + (AUDIO_BUFFER_SIZE - r)) (memmove buf 0 k r) = []"
    using assms by simp
  have t: "take r (memmove buf 0 k r) = take r (drop k buf)"
    unfolding m using l by simp
  show ?thesis
    unfolding memset_def d t by simp
qed

lemma sendAudioChunks_buffer:
  assumes "accumulator_ok st"
  shows "audioBuffer (fst (sendAudioChunks st millis))
     = (if meshDeviceCount st = 0 \<and> \<not> deviceConnected st then replicate AUDIO_BUFFER_SIZE 0
        else take (audioBufferIndex st mod AUDIO_CHUNK_SIZE)
               (drop (audioBufferIndex st div AUDIO_CHUNK_SIZE * AUDIO_CHUNK_SIZE) (audioBuffer st))
             @ replicate (AUDIO_BUFFER_SIZE - audioBufferIndex st mod AUDIO_CHUNK_SIZE) 0)"
proof -
  have len: "length (audioBuffer st) = AUDIO_BUFFER_SIZE"
    and idx: "audioBufferIndex st \<le> AUDIO_BUFFER_SIZE"
    using assms by (simp_all add: accumulator_ok_def)
  have z: "memset (audioBuffer st) 0 0 AUDIO_BUFFER_SIZE = replicate AUDIO_BUFFER_SIZE 0"
    using len by (rule memset_all)
  have kr: "audioBufferIndex st div AUDIO_CHUNK_SIZE * AUDIO_CHUNK_SIZE
      + audioBufferIndex st mod AUDIO_CHUNK_SIZE \<le> AUDIO_BUFFER_SIZE"
    using idx by simp
  have c: "memset (memmove (audioBuffer st) 0
              (audioBufferIndex st div AUDIO_CHUNK_SIZE * AUDIO_CHUNK_SIZE)
              (audioBufferIndex st mod AUDIO_CHUNK_SIZE))
            (audioBufferIndex st mod AUDIO_CHUNK_SIZE) 0
            (AUDIO_BUFFER_SIZE - audioBufferIndex st mod AUDIO_CHUNK_SIZE)
       = take (audioBufferIndex st mod AUDIO_CHUNK_SIZE)
               (drop (audioBufferIndex st div AUDIO_CHUNK_SIZE * AUDIO_CHUNK_SIZE) (audioBuffer st))
             @ replicate (AUDIO_BUFFER_SIZE - audioBufferIndex st mod AUDIO_CHUNK_SIZE) 0"
    using len kr by (rule compaction_buffer)
  show ?thesis
    by (simp add: sendAudioChunks_def Let_def z c)
qed

lemma sendAudioChunks_accumulator_ok:
  assumes a: "accumulator_ok st"
  shows "accumulator_ok (fst (sendAudioChunks st millis))"
proof -
  let ?r = "audioBufferIndex st mod AUDIO_CHUNK_SIZE"
  let ?k = "audioBufferIndex st div AUDIO_CHUNK_SIZE * AUDIO_CHUNK_SIZE"
  have len: "length (audioBuffer st) = AUDIO_BUFFER_SIZE"
    and idx: "audioBufferIndex st \<le> AUDIO_BUFFER_SIZE"
    using a by (simp_all add: accumulator_ok_def)
  have kr: "?k + ?r \<le> AUDIO_BUFFER_SIZE"
    using idx by simp
  then have r: "?r \<le> AUDIO_BUFFER_SIZE"
    by arith
  have "\<And>k r. k + r \<le> AUDIO_BUFFER_SIZE \<Longrightarrow> length (take r (drop k (audioBuffer st))) = r"
    using len by simp
  from this [OF kr] have "length (take ?r (drop ?k (audioBuffer st))) = ?r" .
  then have l: "length (take ?r (drop ?k (audioBuffer st)) @ replicate (AUDIO_BUFFER_SIZE - ?r) 0)
      = AUDIO_BUFFER_SIZE"
    using r by simp
  have "length (audioBuffer (fst (sendAudioChunks st millis))) = AUDIO_BUFFER_SIZE"
    unfolding sendAudioChunks_buffer [OF a] using l by simp
  moreover have "audioBufferIndex (fst (sendAudioChunks st millis)) \<le> AUDIO_BUFFER_SIZE"
    unfolding sendAudioChunks_index using r by simp
  ultimately show ?thesis
    by (simp add: accumulator_ok_def)
qed

lemma force_send_accumulator_ok:
  "accumulator_ok st \<Longrightarrow> accumulator_ok (fst (force_send st millis))"
  by (simp add: force_send_def sendAudioChunks_accumulator_ok)

lemma force_send_index_le:
  "audioBufferIndex (fst (force_send st millis)) \<le> audioBufferIndex st"
  by (simp add: force_send_def sendAudioChunks_index)

lemma force_send_receivers:
  "meshDeviceCount (fst (force_send st millis)) = meshDeviceCount st
   \<and> deviceConnected (fst (force_send st millis)) = deviceConnected st"
  by (simp add: force_send_def sendAudioChunks_def Let_def)

lemma evict_append:
  assumes ok: "accumulator_ok st" and len: "len \<le> length data" "len \<le> AUDIO_BUFFER_SIZE"
    and over: "AUDIO_BUFFER_SIZE < audioBufferIndex st + len"
  shows "\<exists>st'. evict_oldest st len = Inr st'
      \<and> audioBufferIndex (append_audio st' data len) = AUDIO_BUFFER_SIZE
      \<and> audioBuffer (append_audio st' data len)
          = drop (audioBufferIndex st + len - AUDIO_BUFFER_SIZE) (buffered st) @ take len data
      \<and> meshDeviceCount (append_audio st' data len) = meshDeviceCount st
      \<and> deviceConnected (append_audio st' data len) = deviceConnected st"
proof -
  let ?o = "audioBufferIndex st + len - AUDIO_BUFFER_SIZE"
  let ?k = "audioBufferIndex st - ?o"
  let ?buf = "audioBuffer st"
  let ?st' = "st\<lparr>audioBuffer := memmove ?buf 0 ?o ?k, audioBufferIndex := ?k\<rparr>"
  have bl: "length ?buf = AUDIO_BUFFER_SIZE" and idx: "audioBufferIndex st \<le> AUDIO_BUFFER_SIZE"
    using ok by (simp_all add: accumulator_ok_def)
  have o: "?o \<le> audioBufferIndex st" using len(2) by simp
  have k: "?k = AUDIO_BUFFER_SIZE - len" using over len(2) by simp
  have e: "evict_oldest st len = Inr ?st'"
    using over o by (simp add: evict_oldest_def Let_def)
  have keep: "take ?k (drop ?o ?buf) = drop ?o (buffered st)"
    using o by (simp add: drop_take buffered_def)
  have kl: "length (take ?k (drop ?o ?buf)) = ?k"
    using bl idx o by simp
  have mm: "memmove ?buf 0 ?o ?k = take ?k (drop ?o ?buf) @ drop ?k ?buf"
    by (simp add: memmove_def memcpy_def)
  have ml: "length (memmove ?buf 0 ?o ?k) = AUDIO_BUFFER_SIZE"
    unfolding mm using kl bl k by simp
  have "memcpy (memmove ?buf 0 ?o ?k) ?k data len
      = take ?k (memmove ?buf 0 ?o ?k) @ take len data @ drop (?k + len) (memmove ?buf 0 ?o ?k)"
    by (simp add: memcpy_def)
  also have "take ?k (memmove ?buf 0 ?o ?k) = take ?k (drop ?o ?buf)"
    unfolding mm using kl by simp
  also have "drop (?k + len) (memmove ?buf 0 ?o ?k) = []"
    using ml k len(2) by simp
  finally have b: "memcpy (memmove ?buf 0 ?o ?k) ?k data len
      = drop ?o (buffered st) @ take len data"
    using keep by simp
  have i: "audioBufferIndex (append_audio ?st' data len) = AUDIO_BUFFER_SIZE"
    using k len(2) by (simp add: append_audio_def)
  have "audioBuffer (append_audio ?st' data len) = drop ?o (buffered st) @ take len data"
    using b by (simp add: append_audio_def)
  moreover have "meshDeviceCount (append_audio ?st' data len) = meshDeviceCount st"
      "deviceConnected (append_audio ?st' data len) = deviceConnected st"
    by (simp_all add: append_audio_def)
  ultimately show ?thesis
    using e i by blast
qed

lemma append_fits:
  assumes ok: "accumulator_ok st" and len: "len \<le> length data"
    and fits: "audioBufferIndex st + len \<le> AUDIO_BUFFER_SIZE"
  shows "accumulator_ok (append_audio st data len)"
    and "audioBufferIndex (append_audio st data len) = audioBufferIndex st + len"
    and "buffered (append_audio st data len) = buffered st @ take len data"
proof -
  let ?i = "audioBufferIndex st"
  have bl: "length (audioBuffer st) = AUDIO_BUFFER_SIZE"
    using ok by (simp add: accumulator_ok_def)
  have l1: "length (take ?i (audioBuffer st)) = ?i"
    using bl fits by simp
  have l2: "length (take len data) = len"
    using len by simp
  have m: "audioBuffer (append_audio st data len)
      = take ?i (audioBuffer st) @ take len data @ drop (?i + len) (audioBuffer st)"
    by (simp add: append_audio_def memcpy_def)
  have "length (audioBuffer (append_audio st data len)) = AUDIO_BUFFER_SIZE"
    unfolding m using l1 l2 bl fits by simp
  then show "accumulator_ok (append_audio st data len)"
    using fits by (simp add: accumulator_ok_def append_audio_def)
  show i: "audioBufferIndex (append_audio st data len) = ?i + len"
    by (simp add: append_audio_def)
  have "take (?i + len) ((take ?i (audioBuffer st) @ take len data) @ drop (?i + len) (audioBuffer st))
      = take ?i (audioBuffer st) @ take len data"
    using l1 l2 by simp
  then show "buffered (append_audio st data len) = buffered st @ take len data"
    unfolding buffered_def i m by simp
qed

lemma flushed_ok: "accumulator_ok st \<Longrightarrow> accumulator_ok (flushed st len millis)"
  by (simp add: flushed_def force_send_accumulator_ok)

lemma store_audio_buffered:
  assumes ok: "accumulator_ok st" and len: "len \<le> length data" "len \<le> AUDIO_BUFFER_SIZE"
  shows "\<exists>st1 outs1. store_audio st data len millis = Inr (st1, outs1)
      \<and> buffered st1
          = drop (audioBufferIndex (flushed st len millis) + len - AUDIO_BUFFER_SIZE)
              (buffered (flushed st len millis)) @ take len data"
proof (cases "AUDIO_BUFFER_SIZE < audioBufferIndex st + len")
  case False
  then have f: "flushed st len millis = st"
    by (simp add: flushed_def)
  have "store_audio st data len millis = Inr (append_audio st data len, [])"
    using False by (simp add: store_audio_def)
  moreover have "buffered (append_audio st data len) = buffered st @ take len data"
    using append_fits(3) [OF ok len(1)] False by simp
  ultimately show ?thesis
    unfolding f using False by simp
next
  case True
  let ?f = "fst (force_send st millis)"
  have f: "flushed st len millis = ?f"
    using True by (simp add: flushed_def)
  have okf: "accumulator_ok ?f"
    using ok by (rule force_send_accumulator_ok)
  show ?thesis
  proof (cases "AUDIO_BUFFER_SIZE < audioBufferIndex ?f + len")
    case over: True
    obtain st' where e: "evict_oldest ?f len = Inr st'"
        "audioBufferIndex (append_audio st' data len) = AUDIO_BUFFER_SIZE"
        "audioBuffer (append_audio st' data len)
          = drop (audioBufferIndex ?f + len - AUDIO_BUFFER_SIZE) (buffered ?f) @ take len data"
      using evict_append [OF okf len over] by blast
    have lb: "length (drop (audioBufferIndex ?f + len - AUDIO_BUFFER_SIZE) (buffered ?f)
        @ take len data) = AUDIO_BUFFER_SIZE"
      using okf len over by (simp add: buffered_def accumulator_ok_def)
    have "\<And>w :: bytes. length w = AUDIO_BUFFER_SIZE \<Longrightarrow> take AUDIO_BUFFER_SIZE w = w"
      by simp
    from this [OF lb] have "buffered (append_audio st' data len)
        = drop (audioBufferIndex ?f + len - AUDIO_BUFFER_SIZE) (buffered ?f) @ take len data"
      by (simp only: buffered_def [of "append_audio st' data len"] e(2) e(3))
    moreover have "store_audio st data len millis
        = Inr (append_audio st' data len, snd (force_send st millis))"
      using True e(1) by (simp add: store_audio_def)
    ultimately show ?thesis
      unfolding f by simp
  next
    case fits: False
    have e: "evict_oldest ?f len = Inr ?f"
      using fits by (simp add: evict_oldest_def)
    have "store_audio st data len millis = Inr (append_audio ?f data len, snd (force_send st millis))"
      using True e by (simp add: store_audio_def)
    moreover have "buffered (append_audio ?f data len) = buffered ?f @ take len data"
      using append_fits(3) [OF okf len(1)] fits by simp
    ultimately show ?thesis
      unfolding f using fits by simp
  qed
qed

lemma addAudioData_evicts:
  assumes s: "isAudioStreaming st" and ok: "accumulator_ok st"
    and len: "0 < len" "len \<le> length data" "len \<le> AUDIO_BUFFER_SIZE"
    and over: "AUDIO_BUFFER_SIZE < audioBufferIndex (fst (force_send st millis)) + len"
  shows "\<exists>st1 outs1. store_audio st data len millis = Inr (st1, outs1)
      \<and> audioBufferIndex st1 = AUDIO_BUFFER_SIZE
      \<and> take (AUDIO_BUFFER_SIZE - len) (audioBuffer st1)
          = drop (audioBufferIndex (fst (force_send st millis)) + len - AUDIO_BUFFER_SIZE)
              (buffered (fst (force_send st millis)))
      \<and> drop (AUDIO_BUFFER_SIZE - len) (audioBuffer st1) = take len data
      \<and> addAudioData st data len millis
          = Inr (fst (sendAudioChunks st1 millis), outs1 @ snd (sendAudioChunks st1 millis))
      \<and> audioBufferIndex (fst (sendAudioChunks st1 millis))
          = (if meshDeviceCount st = 0 \<and> \<not> deviceConnected st then 0
             else AUDIO_BUFFER_SIZE mod AUDIO_CHUNK_SIZE)"
proof -
  let ?f = "fst (force_send st millis)"
  let ?o = "audioBufferIndex ?f + len - AUDIO_BUFFER_SIZE"
  have okf: "accumulator_ok ?f"
    using ok by (rule force_send_accumulator_ok)
  have "audioBufferIndex ?f \<le> audioBufferIndex st"
    by (rule force_send_index_le)
  then have over0: "AUDIO_BUFFER_SIZE < audioBufferIndex st + len"
    using over by simp
  obtain st' where e: "evict_oldest ?f len = Inr st'"
      "audioBufferIndex (append_audio st' data len) = AUDIO_BUFFER_SIZE"
      "audioBuffer (append_audio st' data len) = drop ?o (buffered ?f) @ take len data"
      "meshDeviceCount (append_audio st' data len) = meshDeviceCount ?f"
      "deviceConnected (append_audio st' data len) = deviceConnected ?f"
    using evict_append [OF okf len(2,3) over] by blast
  let ?st1 = "append_audio st' data len"
  have st: "store_audio st data len millis = Inr (?st1, snd (force_send st millis))"
    using over0 e(1) by (simp add: store_audio_def)
  have lk: "length (drop ?o (buffered ?f)) = AUDIO_BUFFER_SIZE - len"
    using okf len over by (simp add: buffered_def accumulator_ok_def)
  have t: "take (AUDIO_BUFFER_SIZE - len) (audioBuffer ?st1) = drop ?o (buffered ?f)"
    unfolding e(3) using lk by simp
  have d: "drop (AUDIO_BUFFER_SIZE - len) (audioBuffer ?st1) = take len data"
    unfolding e(3) using lk by simp
  have a: "addAudioData st data len millis
      = Inr (fst (sendAudioChunks ?st1 millis),
             snd (force_send st millis) @ snd (sendAudioChunks ?st1 millis))"
    using s len(1) st e(2)
    by (simp add: addAudioData_def AUDIO_BUFFER_SIZE_def AUDIO_CHUNK_SIZE_def)
  have i: "audioBufferIndex (fst (sendAudioChunks ?st1 millis))
      = (if meshDeviceCount st = 0 \<and> \<not> deviceConnected st then 0
         else AUDIO_BUFFER_SIZE mod AUDIO_CHUNK_SIZE)"
    unfolding sendAudioChunks_index e(2) e(4) e(5) using force_send_receivers [of st millis]
    by simp
  from st e(2) t d a i show ?thesis
    by blast
qed

lemma example_accumulator_ok: "accumulator_ok example_accumulator"
  by (simp add: accumulator_ok_def example_accumulator_def AUDIO_BUFFER_SIZE_def)

lemma example_accumulator_force:
  "force_send example_accumulator millis = (example_accumulator, [])"
  by (simp add: force_send_def example_accumulator_def AUDIO_CHUNK_SIZE_def)

lemma example_accumulator_fields:
  "isAudioStreaming example_accumulator" "audioBufferIndex example_accumulator = 150"
  "meshDeviceCount example_accumulator = 2" "deviceConnected example_accumulator"
  "audioBuffer example_accumulator = replicate 150 1 @ replicate 874 0"
  by (simp_all add: example_accumulator_def example_registry_def example_hub_def)

lemma example_accumulator_registry_ok: "registry_ok example_accumulator"
  using example_registry_ok
  by (simp add: registry_ok_def peers_def example_accumulator_def)

lemma unattended_hub_fields:
  "isAudioStreaming unattended_hub" "audioBufferIndex unattended_hub = 150"
  "meshDeviceCount unattended_hub = 0" "\<not> deviceConnected unattended_hub"
  "audioBuffer unattended_hub = replicate 150 1 @ replicate 874 0"
  by (simp_all add: unattended_hub_def example_hub_def)

lemma unattended_hub_ok: "accumulator_ok unattended_hub"
  by (simp add: accumulator_ok_def unattended_hub_fields AUDIO_BUFFER_SIZE_def)

lemma registry_step_fields:
  "audioBuffer (snd (addDeviceToMesh st m name type now addPeer)) = audioBuffer st"
  "audioBufferIndex (snd (addDeviceToMesh st m name type now addPeer)) = audioBufferIndex st"
  "audioBuffer (mark_ready st m now) = audioBuffer st"
  "audioBufferIndex (mark_ready st m now) = audioBufferIndex st"
  "audioBuffer (updateDeviceHeartbeat st m now) = audioBuffer st"
  "audioBufferIndex (updateDeviceHeartbeat st m now) = audioBufferIndex st"
  "audioBuffer (snd (removeDeviceFromMesh st m)) = audioBuffer st"
  "audioBufferIndex (snd (removeDeviceFromMesh st m)) = audioBufferIndex st"
  by (simp_all add: addDeviceToMesh_def mark_ready_def updateDeviceHeartbeat_def
      removeDeviceFromMesh_def Let_def split: option.splits)

lemma send_loop_accumulator:
  assumes ok: "registry_ok st"
  shows "\<exists>st' outs'. send_loop src guard tx k i st outs = Inr (st', outs')
      \<and> audioBuffer st' = audioBuffer st \<and> audioBufferIndex st' = audioBufferIndex st"
proof -
  obtain st' outs' where "send_loop src guard tx k i st outs = Inr (st', outs')" "shrinks st st'"
    using send_loop_shrinks [OF ok, of src guard tx k i outs "[]"] by blast
  then show ?thesis
    by (auto simp add: shrinks_def same_rest_def)
qed

lemma OnDataRecv_accumulator:
  assumes ok: "registry_ok st"
  shows "\<exists>st' outs. OnDataRecv st m msg len now addPeer tx = Inr (st', outs)
      \<and> audioBuffer st' = audioBuffer st \<and> audioBufferIndex st' = audioBufferIndex st"
proof (cases msg)
  case (mesh_join name type)
  obtain b st1 where a: "addDeviceToMesh st m name type now addPeer = (b, st1)"
    by (cases "addDeviceToMesh st m name type now addPeer")
  have "audioBuffer st1 = audioBuffer st \<and> audioBufferIndex st1 = audioBufferIndex st"
    using registry_step_fields(1,2) [of st m name type now addPeer] a by simp
  then show ?thesis
    using mesh_join a by (cases b) (simp_all add: OnDataRecv_def)
next
  case audio_data
  obtain st1 outs1 where "send_loop (Some m) True tx 0 0 st [] = Inr (st1, outs1)"
      "audioBuffer st1 = audioBuffer st \<and> audioBufferIndex st1 = audioBufferIndex st"
    using send_loop_accumulator [OF ok, of "Some m" True tx 0 0 "[]"] by blast
  then show ?thesis
    using audio_data by (simp add: OnDataRecv_def relayAudioToMesh_def)
qed (simp_all add: OnDataRecv_def registry_step_fields)

lemma control_step_accumulator:
  assumes ok: "registry_ok st" and e: "\<not> accumulator_event e"
  shows "\<exists>st' outs. hub_step e st = Inr (st', outs)
      \<and> audioBuffer st' = audioBuffer st \<and> audioBufferIndex st' = audioBufferIndex st"
proof (cases e)
  case (Recv m msg len now addPeer tx)
  then show ?thesis
    using OnDataRecv_accumulator [OF ok, of m msg len now addPeer tx] by simp
next
  case (HeartbeatTick tx)
  then show ?thesis
    using send_loop_accumulator [OF ok, of None False tx 0 0 "[]"]
    by (simp add: sendMeshHeartbeat_def)
next
  case (StatusTick tx)
  then show ?thesis
    using send_loop_accumulator [OF ok, of None False tx 0 0 "[]"]
    by (simp add: broadcastMeshStatus_def)
next
  case (CleanupTick now)
  then show ?thesis
    using cleanup_shrinks [OF ok, of now] by (simp add: shrinks_def same_rest_def)
qed (use e in simp_all)

lemma stop_clear_buffer:
  assumes "accumulator_ok st"
  shows "audioBuffer (stopAudioStream st)
       = (if isAudioStreaming st then replicate AUDIO_BUFFER_SIZE 0 else audioBuffer st)"
    and "audioBufferIndex (stopAudioStream st)
       = (if isAudioStreaming st then 0 else audioBufferIndex st)"
    and "audioBuffer (clear_buffer st) = replicate AUDIO_BUFFER_SIZE 0"
    and "audioBufferIndex (clear_buffer st) = 0"
    and "audioBuffer (startAudioStream st) = audioBuffer st"
    and "audioBufferIndex (startAudioStream st)
       = (if isAudioStreaming st then audioBufferIndex st else 0)"
proof -
  have "length (audioBuffer st) = AUDIO_BUFFER_SIZE"
    using assms by (simp add: accumulator_ok_def)
  then have z: "memset (audioBuffer st) 0 0 AUDIO_BUFFER_SIZE = replicate AUDIO_BUFFER_SIZE 0"
    by (rule memset_all)
  show "audioBuffer (stopAudioStream st)
       = (if isAudioStreaming st then replicate AUDIO_BUFFER_SIZE 0 else audioBuffer st)"
    by (simp add: stopAudioStream_def z)
  show "audioBufferIndex (stopAudioStream st)
       = (if isAudioStreaming st then 0 else audioBufferIndex st)"
    by (simp add: stopAudioStream_def)
  show "audioBuffer (clear_buffer st) = replicate AUDIO_BUFFER_SIZE 0"
    by (simp add: clear_buffer_def z)
  show "audioBufferIndex (clear_buffer st) = 0"
    by (simp add: clear_buffer_def)
  show "audioBuffer (startAudioStream st) = audioBuffer st"
    by (simp add: startAudioStream_def)
  show "audioBufferIndex (startAudioStream st)
       = (if isAudioStreaming st then audioBufferIndex st else 0)"
    by (simp add: startAudioStream_def)
qed

lemma sendAudioChunks_unattended:
  "meshDeviceCount st = 0 \<and> \<not> deviceConnected st \<Longrightarrow> snd (sendAudioChunks st millis) = []"
  by (simp add: sendAudioChunks_def)

text \<open>
  Claim C4, as the code has it.  \<open>addAudioData\<close> is called while streaming with
  \<open>len\<close> bytes, \<open>0 < len \<le> AUDIO_BUFFER_SIZE\<close>, and the forced flush leaves a
  cursor \<open>i\<close> with \<open>i + len > AUDIO_BUFFER_SIZE\<close>.  The \<open>memmove\<close> drops the
  oldest \<open>overflow = i + len - AUDIO_BUFFER_SIZE\<close> buffered bytes and the \<open>memcpy\<close>
  puts the new bytes behind the remaining ones: the cursor stands at
  \<open>AUDIO_BUFFER_SIZE\<close>, the last \<open>len\<close> bytes of the buffer are the new bytes and
  the bytes in front of them are the newest \<open>i - overflow\<close> old ones.  The cursor being
  at least \<open>AUDIO_CHUNK_SIZE\<close>, \<open>addAudioData\<close> goes on to its closing
  \<open>sendAudioChunks\<close> and returns with the cursor at
  \<open>AUDIO_BUFFER_SIZE mod AUDIO_CHUNK_SIZE\<close> = 24, or at 0 when no peer is registered
  and no BLE client is connected.
\<close>

theorem overflow_eviction:
  assumes "isAudioStreaming st" and "accumulator_ok st"
    and "0 < len" and "len \<le> length data" and "len \<le> AUDIO_BUFFER_SIZE"
    and "AUDIO_BUFFER_SIZE < audioBufferIndex (fst (force_send st millis)) + len"
  shows "\<exists>st1 outs1. store_audio st data len millis = Inr (st1, outs1)
      \<and> audioBufferIndex st1 = AUDIO_BUFFER_SIZE
      \<and> take (AUDIO_BUFFER_SIZE - len) (audioBuffer st1)
          = drop (audioBufferIndex (fst (force_send st millis)) + len - AUDIO_BUFFER_SIZE)
              (buffered (fst (force_send st millis)))
      \<and> drop (AUDIO_BUFFER_SIZE - len) (audioBuffer st1) = take len data
      \<and> addAudioData st data len millis
          = Inr (fst (sendAudioChunks st1 millis), outs1 @ snd (sendAudioChunks st1 millis))
      \<and> audioBufferIndex (fst (sendAudioChunks st1 millis))
          = (if meshDeviceCount st = 0 \<and> \<not> deviceConnected st then 0
             else AUDIO_BUFFER_SIZE mod AUDIO_CHUNK_SIZE)"
  using assms by (rule addAudioData_evicts)

theorem overflow_eviction_witness:
  "isAudioStreaming example_accumulator \<and> accumulator_ok example_accumulator
   \<and> 900 \<le> length (replicate 900 (7 :: u8)) \<and> 900 \<le> AUDIO_BUFFER_SIZE
   \<and> AUDIO_BUFFER_SIZE < audioBufferIndex (fst (force_send example_accumulator of_nat)) + 900
   \<and> (\<exists>st1 outs1. store_audio example_accumulator (replicate 900 7) 900 of_nat = Inr (st1, outs1)
        \<and> audioBufferIndex st1 = 1024
        \<and> take 124 (audioBuffer st1) = replicate 124 1
        \<and> drop 124 (audioBuffer st1) = replicate 900 7
        \<and> addAudioData example_accumulator (replicate 900 7) 900 of_nat
            = Inr (fst (sendAudioChunks st1 of_nat), outs1 @ snd (sendAudioChunks st1 of_nat))
        \<and> audioBufferIndex (fst (sendAudioChunks st1 of_nat)) = 24)"
proof -
  have h1: "isAudioStreaming example_accumulator"
    by (rule example_accumulator_fields(1))
  have h2: "accumulator_ok example_accumulator"
    by (rule example_accumulator_ok)
  have h3: "(0 :: nat) < 900" by simp
  have h4: "900 \<le> length (replicate 900 (7 :: u8))" by simp
  have h5: "900 \<le> AUDIO_BUFFER_SIZE" by (simp add: AUDIO_BUFFER_SIZE_def)
  have h6: "AUDIO_BUFFER_SIZE < audioBufferIndex (fst (force_send example_accumulator of_nat)) + 900"
    by (simp add: example_accumulator_force example_accumulator_fields AUDIO_BUFFER_SIZE_def)
  have b: "drop (audioBufferIndex (fst (force_send example_accumulator of_nat)) + 900
                  - AUDIO_BUFFER_SIZE) (buffered (fst (force_send example_accumulator of_nat)))
      = replicate 124 1"
    by (simp add: example_accumulator_force example_accumulator_fields AUDIO_BUFFER_SIZE_def
        buffered_def)
  have n: "AUDIO_BUFFER_SIZE - 900 = 124" "AUDIO_BUFFER_SIZE = 1024"
      "1024 mod AUDIO_CHUNK_SIZE = 24"
    by (simp_all add: AUDIO_BUFFER_SIZE_def AUDIO_CHUNK_SIZE_def)
  have t: "take 900 (replicate 900 (7 :: u8)) = replicate 900 7" by simp
  have r: "meshDeviceCount example_accumulator \<noteq> 0"
    by (simp add: example_accumulator_fields)
  show ?thesis
    using overflow_eviction [OF h1 h2 h3 h4 h5 h6] h1 h2 h4 h5 h6
    unfolding b n(1) t
    by (simp only: n(2,3) r simp_thms if_False)
qed

text \<open>
  The claim as stated has \<open>len\<close> as the final cursor.  With 150 bytes buffered,
  which is \<open>AUDIO_BUFFER_SIZE - 874\<close>, and 900 bytes appended, the cursor is 1024 after
  the copy and 24 when \<open>addAudioData\<close> returns.
\<close>

theorem overflow_cursor_counterexample:
  "audioBufferIndex example_accumulator = AUDIO_BUFFER_SIZE - 874
   \<and> \<not> isl (addAudioData example_accumulator (replicate 900 7) 900 of_nat)
   \<and> audioBufferIndex (fst (projr (store_audio example_accumulator (replicate 900 7) 900 of_nat)))
       = 1024
   \<and> audioBufferIndex (fst (projr (addAudioData example_accumulator (replicate 900 7) 900 of_nat)))
       = 24"
proof -
  have h1: "isAudioStreaming example_accumulator"
    by (rule example_accumulator_fields(1))
  have h2: "accumulator_ok example_accumulator"
    by (rule example_accumulator_ok)
  have h3: "(0 :: nat) < 900" by simp
  have h4: "900 \<le> length (replicate 900 (7 :: u8))" by simp
  have h5: "900 \<le> AUDIO_BUFFER_SIZE" by (simp add: AUDIO_BUFFER_SIZE_def)
  have h6: "AUDIO_BUFFER_SIZE < audioBufferIndex (fst (force_send example_accumulator of_nat)) + 900"
    by (simp add: example_accumulator_force example_accumulator_fields AUDIO_BUFFER_SIZE_def)
  obtain st1 outs1 where
      s: "store_audio example_accumulator (replicate 900 7) 900 of_nat = Inr (st1, outs1)"
      and i: "audioBufferIndex st1 = AUDIO_BUFFER_SIZE"
      and a: "addAudioData example_accumulator (replicate 900 7) 900 of_nat
          = Inr (fst (sendAudioChunks st1 of_nat), outs1 @ snd (sendAudioChunks st1 of_nat))"
      and f: "audioBufferIndex (fst (sendAudioChunks st1 of_nat))
          = (if meshDeviceCount example_accumulator = 0 \<and> \<not> deviceConnected example_accumulator
             then 0 else AUDIO_BUFFER_SIZE mod AUDIO_CHUNK_SIZE)"
    using addAudioData_evicts [OF h1 h2 h3 h4 h5 h6] by blast
  have c: "audioBufferIndex example_accumulator = AUDIO_BUFFER_SIZE - 874"
    by (simp add: example_accumulator_fields AUDIO_BUFFER_SIZE_def)
  have "audioBufferIndex (fst (sendAudioChunks st1 of_nat)) = 24"
    unfolding f by (simp add: example_accumulator_fields AUDIO_BUFFER_SIZE_def AUDIO_CHUNK_SIZE_def)
  moreover have "audioBufferIndex st1 = 1024"
    using i by (simp add: AUDIO_BUFFER_SIZE_def)
  ultimately show ?thesis
    unfolding s a using c by simp
qed

text \<open>
  Claim C9, as the code has it.  In a Hub whose accumulator and registry are in order:
  a step that does not call into the accumulator (a received control message, the
  heartbeat and status broadcasts, the timeout sweep, a BLE connection or
  disconnection) returns and leaves buffer and cursor as they were.  The buffered bytes
  are cleared or discarded at these points.  \<open>sendAudioChunks\<close>, when a peer is
  registered or a BLE client is connected, moves the remainder behind the last whole
  chunk to the front and zeroes the rest; when there is neither, it zeroes the whole
  buffer and resets the cursor.  \<open>stopAudioStream\<close> while streaming and the
  \<^verbatim>\<open>clear_buffer\<close> command zero the whole buffer and reset the cursor.
  \<open>startAudioStream\<close> while not streaming resets the cursor and leaves the buffer.
  The store step of \<open>addAudioData\<close> keeps the bytes buffered after its forced flush
  but for the oldest \<open>overflow\<close> of them, and puts the new bytes behind them.
\<close>

theorem accumulator_clearing_points:
  assumes "accumulator_ok st" and "registry_ok st" and "\<not> accumulator_event e"
    and "len \<le> length data" and "len \<le> AUDIO_BUFFER_SIZE"
  shows
    "(\<exists>st' outs. hub_step e st = Inr (st', outs)
        \<and> audioBuffer st' = audioBuffer st \<and> audioBufferIndex st' = audioBufferIndex st)
     \<and> audioBufferIndex (fst (sendAudioChunks st millis))
         = (if meshDeviceCount st = 0 \<and> \<not> deviceConnected st then 0
            else audioBufferIndex st mod AUDIO_CHUNK_SIZE)
     \<and> audioBuffer (fst (sendAudioChunks st millis))
         = (if meshDeviceCount st = 0 \<and> \<not> deviceConnected st then replicate AUDIO_BUFFER_SIZE 0
            else take (audioBufferIndex st mod AUDIO_CHUNK_SIZE)
                   (drop (audioBufferIndex st div AUDIO_CHUNK_SIZE * AUDIO_CHUNK_SIZE)
                      (audioBuffer st))
                 @ replicate (AUDIO_BUFFER_SIZE - audioBufferIndex st mod AUDIO_CHUNK_SIZE) 0)
     \<and> audioBuffer (stopAudioStream st)
         = (if isAudioStreaming st then replicate AUDIO_BUFFER_SIZE 0 else audioBuffer st)
     \<and> audioBufferIndex (stopAudioStream st)
         = (if isAudioStreaming st then 0 else audioBufferIndex st)
     \<and> audioBuffer (clear_buffer st) = replicate AUDIO_BUFFER_SIZE 0
     \<and> audioBufferIndex (clear_buffer st) = 0
     \<and> audioBuffer (startAudioStream st) = audioBuffer st
     \<and> audioBufferIndex (startAudioStream st)
         = (if isAudioStreaming st then audioBufferIndex st else 0)
     \<and> (\<exists>st1 outs1. store_audio st data len millis = Inr (st1, outs1)
        \<and> buffered st1
            = drop (audioBufferIndex (flushed st len millis) + len - AUDIO_BUFFER_SIZE)
                (buffered (flushed st len millis)) @ take len data)"
proof -
  note a = control_step_accumulator [OF assms(2,3)]
  note b = sendAudioChunks_index [of st millis]
  note c = sendAudioChunks_buffer [OF assms(1), of millis]
  note d = stop_clear_buffer [OF assms(1)]
  note e = store_audio_buffered [OF assms(1,4,5), of millis]
  from a b c d e show ?thesis
    by (intro conjI)
qed

theorem accumulator_clearing_points_witness:
  "accumulator_ok example_accumulator \<and> registry_ok example_accumulator
   \<and> \<not> accumulator_event (HeartbeatTick radio_ok)
   \<and> 900 \<le> length (replicate 900 (7 :: u8)) \<and> 900 \<le> AUDIO_BUFFER_SIZE
   \<and> (\<exists>st' outs. hub_step (HeartbeatTick radio_ok) example_accumulator = Inr (st', outs)
        \<and> audioBuffer st' = audioBuffer example_accumulator
        \<and> audioBufferIndex st' = audioBufferIndex example_accumulator)
   \<and> audioBufferIndex (fst (sendAudioChunks example_accumulator of_nat)) = 150
   \<and> audioBuffer (fst (sendAudioChunks example_accumulator of_nat))
       = replicate 150 1 @ replicate 874 0
   \<and> audioBuffer (stopAudioStream example_accumulator) = replicate 1024 0
   \<and> audioBufferIndex (stopAudioStream example_accumulator) = 0
   \<and> audioBuffer (clear_buffer example_accumulator) = replicate 1024 0
   \<and> audioBufferIndex (clear_buffer example_accumulator) = 0
   \<and> audioBuffer (startAudioStream example_accumulator) = audioBuffer example_accumulator
   \<and> audioBufferIndex (startAudioStream example_accumulator) = 150
   \<and> (\<exists>st1 outs1. store_audio example_accumulator (replicate 900 7) 900 of_nat = Inr (st1, outs1)
        \<and> buffered st1 = replicate 124 1 @ replicate 900 7)"
proof -
  have h1: "accumulator_ok example_accumulator"
    by (rule example_accumulator_ok)
  have h2: "registry_ok example_accumulator"
    by (rule example_accumulator_registry_ok)
  have h3: "\<not> accumulator_event (HeartbeatTick radio_ok)" by simp
  have h4: "900 \<le> length (replicate 900 (7 :: u8))" by simp
  have h5: "900 \<le> AUDIO_BUFFER_SIZE" by (simp add: AUDIO_BUFFER_SIZE_def)
  have r: "\<not> (meshDeviceCount example_accumulator = 0 \<and> \<not> deviceConnected example_accumulator)"
      "isAudioStreaming example_accumulator"
    by (simp_all add: example_accumulator_fields)
  have f: "flushed example_accumulator 900 of_nat = example_accumulator"
    by (simp add: flushed_def example_accumulator_force)
  note c = accumulator_clearing_points [OF h1 h2 h3 h4 h5, of of_nat]
  show ?thesis
    using c h1 h2 h3 h4 h5 unfolding f
    by (simp add: example_accumulator_fields AUDIO_CHUNK_SIZE_def AUDIO_BUFFER_SIZE_def
        buffered_def)
qed

text \<open>
  The claim as stated has the compaction after an emission as the only point where
  buffered bytes are cleared.  With 150 bytes buffered, \<open>stopAudioStream\<close> zeroes them
  and resets the cursor; and with no peer registered and no BLE client connected, a
  write of 100 more bytes brings the cursor to 250 and the closing
  \<open>sendAudioChunks\<close> zeroes all 250 bytes without handing a frame to anyone.
\<close>

theorem stop_and_unattended_clear_counterexample:
  "buffered example_accumulator = replicate 150 1
   \<and> hub_step StopStream example_accumulator
       = Inr (example_accumulator\<lparr>isAudioStreaming := False, audioBuffer := replicate 1024 0,
                audioBufferIndex := 0, audioSequenceNumber := 0\<rparr>, [])
   \<and> buffered unattended_hub = replicate 150 1
   \<and> hub_step (AudioIn (replicate 100 7) 100 of_nat) unattended_hub
       = Inr (unattended_hub\<lparr>audioBuffer := replicate 1024 0, audioBufferIndex := 0\<rparr>, [])"
proof -
  have z: "memset (audioBuffer example_accumulator) 0 0 AUDIO_BUFFER_SIZE = replicate 1024 0"
    using example_accumulator_ok memset_all [of "audioBuffer example_accumulator" AUDIO_BUFFER_SIZE]
    by (simp add: accumulator_ok_def) (simp add: AUDIO_BUFFER_SIZE_def)
  have a: "buffered example_accumulator = replicate 150 1"
    by (simp add: buffered_def example_accumulator_fields)
  have b: "hub_step StopStream example_accumulator
       = Inr (example_accumulator\<lparr>isAudioStreaming := False, audioBuffer := replicate 1024 0,
                audioBufferIndex := 0, audioSequenceNumber := 0\<rparr>, [])"
    by (simp add: stopAudioStream_def example_accumulator_fields(1) z)
  have c: "buffered unattended_hub = replicate 150 1"
    by (simp add: buffered_def unattended_hub_fields)
  let ?st1 = "append_audio unattended_hub (replicate 100 7) 100"
  have fits: "audioBufferIndex unattended_hub + 100 \<le> AUDIO_BUFFER_SIZE"
    by (simp add: unattended_hub_fields AUDIO_BUFFER_SIZE_def)
  have ok1: "accumulator_ok ?st1"
    using append_fits(1) [OF unattended_hub_ok _ fits, of "replicate 100 7"] by simp
  have i1: "audioBufferIndex ?st1 = 250"
    by (simp add: append_audio_def unattended_hub_fields)
  have r1: "meshDeviceCount ?st1 = 0 \<and> \<not> deviceConnected ?st1"
    by (simp add: append_audio_def unattended_hub_fields)
  have s: "store_audio unattended_hub (replicate 100 7) 100 of_nat = Inr (?st1, [])"
    using fits by (simp add: store_audio_def)
  have z1: "memset (audioBuffer ?st1) 0 0 AUDIO_BUFFER_SIZE = replicate 1024 0"
    using ok1 memset_all [of "audioBuffer ?st1" AUDIO_BUFFER_SIZE]
    by (simp add: accumulator_ok_def) (simp add: AUDIO_BUFFER_SIZE_def)
  have "sendAudioChunks ?st1 of_nat
      = (?st1\<lparr>audioBuffer := replicate 1024 0, audioBufferIndex := 0\<rparr>, [])"
    using r1 by (simp add: sendAudioChunks_def z1)
  also have "?st1\<lparr>audioBuffer := replicate 1024 0, audioBufferIndex := 0\<rparr>
      = unattended_hub\<lparr>audioBuffer := replicate 1024 0, audioBufferIndex := 0\<rparr>"
    by (simp add: append_audio_def)
  finally have e: "sendAudioChunks ?st1 of_nat
      = (unattended_hub\<lparr>audioBuffer := replicate 1024 0, audioBufferIndex := 0\<rparr>, [])" .
  have d: "hub_step (AudioIn (replicate 100 7) 100 of_nat) unattended_hub
       = Inr (unattended_hub\<lparr>audioBuffer := replicate 1024 0, audioBufferIndex := 0\<rparr>, [])"
    by (simp add: addAudioData_def unattended_hub_fields(1) s i1 AUDIO_CHUNK_SIZE_def e)
  from a b c d show ?thesis
    by (intro conjI)
qed

section \<open>Relay: a 16-bit item on the three ingestion paths\<close>

lemma task_ingest_raw:
  assumes "isPcm8 item = 0" and "coalesceLen c + unat (n_length item) \<le> cap"
    and "coalesceLen c \<le> length (coalesceBuf c)"
    and "unat (n_length item) \<le> length (n_data item)"
  shows "coalesced (task_ingest cap item c) = coalesced c @ notify_payload item"
proof -
  let ?n = "unat (n_length item)"
  have m: "min ?n (cap - coalesceLen c) = ?n"
    using assms(2) by simp
  have l: "length (take (coalesceLen c) (coalesceBuf c) @ take ?n (n_data item))
      = coalesceLen c + ?n"
    using assms(3,4) by simp
  have "\<And>(w :: bytes) k r. length w = k \<Longrightarrow> take k (w @ r) = w"
    by simp
  from this [OF l] show ?thesis
    using assms(1)
    by (simp add: task_ingest_def coalesced_def notify_payload_def memcpy_def Let_def m
        del: take_append)
qed

lemma loop_ingest_raw:
  assumes "isPcm8 item = 0" and "coalesceLen c + 240 \<le> cap"
    and "coalesceLen c \<le> length (coalesceBuf c)"
  shows "coalesced (loop_ingest cap item c) = coalesced c @ replicate 240 128"
proof -
  have m: "min 240 (cap - coalesceLen c) = 240"
    using assms(2) by simp
  have l: "length (take (coalesceLen c) (coalesceBuf c) @ replicate 240 (128 :: u8))
      = coalesceLen c + 240"
    using assms(3) by simp
  have "\<And>(w :: bytes) k r. length w = k \<Longrightarrow> take k (w @ r) = w"
    by simp
  from this [OF l] show ?thesis
    using assms(1)
    by (simp add: loop_ingest_def coalesced_def memcpy_def Let_def m del: take_append)
qed

lemma raw_item_popped:
  "fst (snd (notifyQueuePop blank_item
     (snd (notifyQueuePushFromISR [1, 2, 3, 4] 4 0 notify_init)))) = raw_item"
  by (simp add: notifyQueuePop_def notifyQueuePushFromISR_def notify_init_def blank_item_def
      raw_item_def memcpy_def Let_def)

text \<open>
  Claim C8 at an item that is not 8-bit PCM.  The payload 1, 2, 3, 4 is pushed with
  \<open>isPcm8 = 0\<close> and popped.  The flush block of \<open>loop()\<close> and its copy in
  \<open>setup()\<close> append 240 bytes of 128 to an empty coalescing buffer, not the payload;
  \<open>bleNotifyTask\<close>, for which no task is created, appends the payload.
\<close>

theorem raw_item_replaced_by_silence:
  "fst (snd (notifyQueuePop blank_item
       (snd (notifyQueuePushFromISR [1, 2, 3, 4] 4 0 notify_init)))) = raw_item
   \<and> isPcm8 raw_item = 0 \<and> notify_payload raw_item = [1, 2, 3, 4]
   \<and> coalesced (loop_ingest 4096 raw_item (empty_coalescer 4096)) = replicate 240 128
   \<and> coalesced (loop_ingest 1536 raw_item (empty_coalescer 1536)) = replicate 240 128
   \<and> coalesced (task_ingest 1536 raw_item (empty_coalescer 1536)) = [1, 2, 3, 4]"
proof -
  have t: "isPcm8 raw_item = 0" "notify_payload raw_item = [1, 2, 3, 4]"
      "unat (n_length raw_item) = 4"
    by (simp_all add: raw_item_def notify_payload_def)
  have e: "coalesced (empty_coalescer 4096) = []" "coalesced (empty_coalescer 1536) = []"
    by (simp_all add: coalesced_def empty_coalescer_def)
  have a: "coalesced (loop_ingest 4096 raw_item (empty_coalescer 4096)) = replicate 240 128"
    using loop_ingest_raw [OF t(1), of "empty_coalescer 4096" 4096] e
    by (simp add: empty_coalescer_def)
  have b: "coalesced (loop_ingest 1536 raw_item (empty_coalescer 1536)) = replicate 240 128"
    using loop_ingest_raw [OF t(1), of "empty_coalescer 1536" 1536] e
    by (simp add: empty_coalescer_def)
  have c: "coalesced (task_ingest 1536 raw_item (empty_coalescer 1536)) = [1, 2, 3, 4]"
    using task_ingest_raw [OF t(1), of "empty_coalescer 1536" 1536] e t(2,3)
    by (simp add: empty_coalescer_def) (simp add: raw_item_def)
  from raw_item_popped t(1,2) a b c show ?thesis
    by (intro conjI)
qed

text \<open>
  When the consumer's item has \<open>isPcm8\<close> set, both ingestion paths append the
  converted samples.  Which branch runs depends on the caller's item alone:
  \<open>notifyQueuePop\<close> leaves its \<open>isPcm8\<close> as it was.
\<close>

lemma notifyQueuePop_keeps_tag: "isPcm8 (fst (snd (notifyQueuePop out q))) = isPcm8 out"
  by (simp add: notifyQueuePop_def Let_def)

lemma task_ingest_pcm8:
  assumes "isPcm8 item \<noteq> 0" and "unat (n_length item) \<le> 256"
    and "unat (n_length item) \<le> length (n_data item)"
    and "coalesceLen c + 2 * unat (n_length item) \<le> cap"
    and "coalesceLen c \<le> length (coalesceBuf c)"
  shows "coalesced (task_ingest cap item c)
       = coalesced c
         @ concat (map (\<lambda>s. [s16_lo (upsample_s16 s), s16_hi (upsample_s16 s)])
             (notify_payload item))"
proof -
  let ?p = "take (unat (n_length item)) (n_data item)"
  let ?out = "concat (map (\<lambda>s. [s16_lo (upsample_s16 s), s16_hi (upsample_s16 s)]) ?p)"
  have lp: "length ?p = unat (n_length item)"
    using assms(3) by simp
  have conv: "pcm8_to_pcm16 ?p [] = ?out"
    using pcm8_to_pcm16_fits [of "[]" ?p] lp assms(2) by simp
  have lo: "length ?out = 2 * unat (n_length item)"
    using lp by (simp add: length_concat o_def sum_list_triv)
  have m: "min (length ?out) (cap - coalesceLen c) = length ?out"
    using assms(4) lo by simp
  have l: "length (take (coalesceLen c) (coalesceBuf c) @ ?out) = coalesceLen c + length ?out"
    using assms(5) by simp
  have "\<And>(w :: bytes) k r. length w = k \<Longrightarrow> take k (w @ r) = w"
    by simp
  from this [OF l] show ?thesis
    using assms(1)
    by (simp add: task_ingest_def coalesced_def notify_payload_def memcpy_def Let_def conv m
        del: take_append)
qed

lemma loop_ingest_pcm8:
  assumes "isPcm8 item \<noteq> 0" and "unat (n_length item) \<le> 256"
    and "unat (n_length item) \<le> length (n_data item)"
    and "coalesceLen c + 2 * unat (n_length item) \<le> cap"
    and "coalesceLen c \<le> length (coalesceBuf c)"
  shows "coalesced (loop_ingest cap item c)
       = coalesced c
         @ concat (map (\<lambda>s. [s16_lo (upsample_s16 s), s16_hi (upsample_s16 s)])
             (notify_payload item))"
proof -
  let ?p = "take (unat (n_length item)) (n_data item)"
  let ?out = "concat (map (\<lambda>s. [s16_lo (upsample_s16 s), s16_hi (upsample_s16 s)]) ?p)"
  have lp: "length ?p = unat (n_length item)"
    using assms(3) by simp
  have conv: "pcm8_to_pcm16 ?p [] = ?out"
    using pcm8_to_pcm16_fits [of "[]" ?p] lp assms(2) by simp
  have lo: "length ?out = 2 * unat (n_length item)"
    using lp by (simp add: length_concat o_def sum_list_triv)
  have m: "min (length ?out) (cap - coalesceLen c) = length ?out"
    using assms(4) lo by simp
  have l: "length (take (coalesceLen c) (coalesceBuf c) @ ?out) = coalesceLen c + length ?out"
    using assms(5) by simp
  have "\<And>(w :: bytes) k r. length w = k \<Longrightarrow> take k (w @ r) = w"
    by simp
  from this [OF l] show ?thesis
    using assms(1)
    by (simp add: loop_ingest_def coalesced_def notify_payload_def memcpy_def Let_def conv m
        del: take_append)
qed

lemma legacy_slot:
  "notifyQueue legacy_queue ! 0
     = \<lparr>n_length = 3, n_data = [0, 128, 255] @ replicate 509 0, isPcm8 = 1\<rparr>"
  by (simp add: legacy_queue_def notifyQueuePushFromISR_def notify_init_def memcpy_def Let_def)

lemma legacy_item_fields:
  "legacy_item = \<lparr>n_length = 3, n_data = [0, 128, 255] @ replicate 509 0, isPcm8 = 0\<rparr>"
  by (simp add: legacy_item_def legacy_queue_def notifyQueuePop_def notifyQueuePushFromISR_def
      notify_init_def blank_item_def memcpy_def Let_def)

lemma legacy_samples:
  "concat (map (\<lambda>s. [s16_lo (upsample_s16 s), s16_hi (upsample_s16 s)]) [0, 128, 255])
     = [0x00, 0x80, 0x00, 0x00, 0x00, 0x7F]"
  by (simp add: upsample_s16_def s16_lo_def s16_hi_def)

text \<open>
  Claim C5 at an item pushed as 8-bit PCM.  The samples 0, 128, 255 are pushed with
  \<open>isPcm8 = 1\<close>; the slot holds the tag, the popped item does not.  The flush block of
  \<open>loop()\<close> and its copy in \<open>setup()\<close> append 240 bytes of 128 and
  \<open>bleNotifyTask\<close> appends the three bytes as they are: no sample is converted.  With
  the tag the producer gave, both would append 00 80, 00 00, 00 7F, the samples -32768,
  0 and 32512.
\<close>

theorem legacy_item_not_upsampled:
  "isPcm8 (notifyQueue legacy_queue ! 0) = 1
   \<and> notify_payload legacy_item = [0, 128, 255]
   \<and> isPcm8 legacy_item = 0
   \<and> coalesced (loop_ingest 4096 legacy_item (empty_coalescer 4096)) = replicate 240 128
   \<and> coalesced (loop_ingest 1536 legacy_item (empty_coalescer 1536)) = replicate 240 128
   \<and> coalesced (task_ingest 1536 legacy_item (empty_coalescer 1536)) = [0, 128, 255]
   \<and> coalesced (loop_ingest 4096 (legacy_item\<lparr>isPcm8 := 1\<rparr>) (empty_coalescer 4096))
       = [0x00, 0x80, 0x00, 0x00, 0x00, 0x7F]
   \<and> coalesced (task_ingest 1536 (legacy_item\<lparr>isPcm8 := 1\<rparr>) (empty_coalescer 1536))
       = [0x00, 0x80, 0x00, 0x00, 0x00, 0x7F]"
proof -
  have s: "isPcm8 (notifyQueue legacy_queue ! 0) = 1"
    by (simp add: legacy_slot)
  have t: "isPcm8 legacy_item = 0" "notify_payload legacy_item = [0, 128, 255]"
      "unat (n_length legacy_item) = 3"
    by (simp_all add: legacy_item_fields notify_payload_def)
  have e: "coalesced (empty_coalescer 4096) = []" "coalesced (empty_coalescer 1536) = []"
    by (simp_all add: coalesced_def empty_coalescer_def)
  have a: "coalesced (loop_ingest 4096 legacy_item (empty_coalescer 4096)) = replicate 240 128"
    using loop_ingest_raw [OF t(1), of "empty_coalescer 4096" 4096] e
    by (simp add: empty_coalescer_def)
  have b: "coalesced (loop_ingest 1536 legacy_item (empty_coalescer 1536)) = replicate 240 128"
    using loop_ingest_raw [OF t(1), of "empty_coalescer 1536" 1536] e
    by (simp add: empty_coalescer_def)
  have c: "coalesced (task_ingest 1536 legacy_item (empty_coalescer 1536)) = [0, 128, 255]"
    using task_ingest_raw [OF t(1), of "empty_coalescer 1536" 1536] e t(2,3)
    by (simp add: empty_coalescer_def) (simp add: legacy_item_fields)
  let ?i = "legacy_item\<lparr>isPcm8 := 1\<rparr>"
  have u: "isPcm8 ?i \<noteq> 0" "unat (n_length ?i) = 3" "notify_payload ?i = [0, 128, 255]"
      "length (n_data ?i) = 512"
    by (simp_all add: legacy_item_fields notify_payload_def)
  have d: "coalesced (loop_ingest 4096 ?i (empty_coalescer 4096))
       = [0x00, 0x80, 0x00, 0x00, 0x00, 0x7F]"
    using loop_ingest_pcm8 [OF u(1), of "empty_coalescer 4096" 4096] e(1) legacy_samples
    unfolding u(2,3,4) by (simp add: empty_coalescer_def)
  have f: "coalesced (task_ingest 1536 ?i (empty_coalescer 1536))
       = [0x00, 0x80, 0x00, 0x00, 0x00, 0x7F]"
    using task_ingest_pcm8 [OF u(1), of "empty_coalescer 1536" 1536] e(2) legacy_samples
    unfolding u(2,3,4) by (simp add: empty_coalescer_def)
  from s t(2) t(1) a b c d f show ?thesis
    by (intro conjI)
qed

section \<open>The compact frame with a field from \<open>2^31\<close> on\<close>

text \<open>
  \<open>%d\<close> prints a field from \<open>2^31\<close> on with a minus sign, and the parser stops at
  the first byte that is neither a digit nor a colon: a header with such a field is
  rejected, whatever follows it, and so is every frame \<open>sendAudioChunks\<close> sends when
  \<open>millis()\<close> is that large.
\<close>

lemma minus_not_digit: "\<not> (0x30 \<le> (0x2D :: u8))" "(0x2D :: u8) \<noteq> 0x3A"
  by simp_all

lemma parse_loop_minus:
  "sint v < 0 \<Longrightarrow> length vals < 8 \<Longrightarrow> parse_loop (print_d v @ rest) idx 0 vals = None"
  using minus_not_digit by (simp add: print_d_def)

lemma parse_loop_negative:
  assumes "\<exists>v \<in> set vs. sint v < 0" "length vals + length vs \<le> 8"
  shows "parse_loop (join_colon (map print_d vs) @ rest) idx 0 vals = None"
  using assms
proof (induction vs arbitrary: idx vals)
  case Nil
  then show ?case by simp
next
  case (Cons v vs)
  have lv: "length vals < 8" using Cons.prems(2) by simp
  show ?case
  proof (cases "sint v < 0")
    case True
    have "join_colon (map print_d (v # vs)) @ rest
        = print_d v @ (case vs of [] \<Rightarrow> rest | w # ws \<Rightarrow> 0x3A # join_colon (map print_d vs) @ rest)"
      by (cases vs) simp_all
    then show ?thesis
      using parse_loop_minus [OF True lv] by simp
  next
    case False
    then have v: "0 \<le> sint v" by simp
    have ex: "\<exists>v \<in> set vs. sint v < 0" using Cons.prems(1) False by auto
    then obtain w ws where vs: "vs = w # ws" by (cases vs) auto
    have "parse_loop (join_colon (map print_d (v # vs)) @ rest) idx 0 vals
        = parse_loop (print_d v @ 0x3A # (join_colon (map print_d vs) @ rest)) idx 0 vals"
      using vs by simp
    also have "\<dots> = parse_loop (join_colon (map print_d vs) @ rest)
                        (idx + length (print_d v) + 1) 0 (vals @ [v])"
      using v lv by (rule parse_loop_field)
    also have "\<dots> = None"
      using Cons.IH [OF ex, of "vals @ [v]" "idx + length (print_d v) + 1"] Cons.prems(2)
      by simp
    finally show ?thesis .
  qed
qed

lemma negative_header_rejected:
  assumes "length vals \<le> 8" "\<exists>v \<in> set vals. sint v < 0"
  shows "parseCompactAudioHeader (compact_header vals @ rest) = None"
proof -
  have "parse_loop (drop 2 (compact_header vals @ rest)) 2 0 [] = None"
    using parse_loop_negative [OF assms(2), of "[]" rest 2] assms(1)
    by (simp add: compact_header_def)
  then show ?thesis
    by (simp add: parseCompactAudioHeader_def)
qed

lemma negative_field_rejected:
  assumes "length vals \<le> 8" "\<exists>v \<in> set vals. sint v < 0"
  shows "parseCompactAudioHeader (compact_frame vals raw) = None"
  using negative_header_rejected [OF assms, of "[]"]
    negative_header_rejected [OF assms, of "[0x3A] @ raw"]
  by (simp add: compact_frame_def Let_def)

lemma late_frames_rejected:
  assumes "\<forall>c. sint (millis c) < 0"
    and "msg \<in> set (frames_to m (snd (sendAudioChunks st millis)))"
  shows "parseCompactAudioHeader msg = None"
proof -
  obtain c raw where "msg = compact_header [audioSequenceNumber st + of_nat (c - 0), of_nat c,
        of_nat (audioBufferIndex st div AUDIO_CHUNK_SIZE), millis c, 16000, 16, 128, 128]
      @ [0x3A] @ raw"
    using assms(2) unfolding sendAudioChunks_frames by (auto simp add: Let_def)
  then show ?thesis
    using assms(1) negative_header_rejected [of "[audioSequenceNumber st + of_nat (c - 0), of_nat c,
        of_nat (audioBufferIndex st div AUDIO_CHUNK_SIZE), millis c, 16000, 16, 128, 128]"
        "[0x3A] @ raw"]
    by simp
qed

lemma sint_late: "sint (3000000000 :: i32) = - 1294967296"
  by simp

lemma dec_digits_small: "n < 10 \<Longrightarrow> dec_digits n = [of_nat (48 + n)]"
  by (subst dec_digits.simps) simp

lemma dec_digits_step:
  "10 \<le> n \<Longrightarrow> dec_digits n = dec_digits (n div 10) @ [of_nat (48 + n mod 10)]"
  by (subst dec_digits.simps) simp

lemma print_late:
  "print_d 3000000000
     = [0x2D, 0x31, 0x32, 0x39, 0x34, 0x39, 0x36, 0x37, 0x32, 0x39, 0x36]"
  unfolding print_d_def sint_late
  by (simp add: dec_digits_step dec_digits_small)

lemma print_small:
  "print_d 0 = [0x30]" "print_d 1 = [0x31]" "print_d 16 = [0x31, 0x36]"
  "print_d 128 = [0x31, 0x32, 0x38]" "print_d 16000 = [0x31, 0x36, 0x30, 0x30, 0x30]"
  by (simp_all add: print_d_def dec_digits_step dec_digits_small)

lemma late_frame_bytes:
  "compact_frame [0, 0, 1, 3000000000, 16000, 16, 128, 128] [1, 2, 3]
     = [0x50, 0x3A, 0x30, 0x3A, 0x30, 0x3A, 0x31, 0x3A,
        0x2D, 0x31, 0x32, 0x39, 0x34, 0x39, 0x36, 0x37, 0x32, 0x39, 0x36, 0x3A,
        0x31, 0x36, 0x30, 0x30, 0x30, 0x3A, 0x31, 0x36, 0x3A, 0x31, 0x32, 0x38, 0x3A,
        0x31, 0x32, 0x38, 0x3A, 1, 2, 3]"
  by (simp add: compact_frame_def compact_header_def print_small print_late Let_def)

text \<open>
  Claim C2 at \<open>millis() = 3000000000\<close>.  The fields 0, 0, 1, 3000000000, 16000, 16,
  128, 128 and the payload 1, 2, 3 are encoded as
  \<^verbatim>\<open>P:0:0:1:-1294967296:16000:16:128:128:\<close> followed by the payload, and
  \<open>parseCompactAudioHeader\<close> returns false on it; the one frame \<open>sendAudioChunks\<close>
  hands to the radio for the active peer at that time is rejected as well.  With
  2147483647 in the place of 3000000000 the frame is accepted and the fields come back.
\<close>

theorem late_uptime_frame_rejected:
  "print_d 3000000000 = [0x2D, 0x31, 0x32, 0x39, 0x34, 0x39, 0x36, 0x37, 0x32, 0x39, 0x36]
   \<and> compact_frame [0, 0, 1, 3000000000, 16000, 16, 128, 128] [1, 2, 3]
     = [0x50, 0x3A, 0x30, 0x3A, 0x30, 0x3A, 0x31, 0x3A,
        0x2D, 0x31, 0x32, 0x39, 0x34, 0x39, 0x36, 0x37, 0x32, 0x39, 0x36, 0x3A,
        0x31, 0x36, 0x30, 0x30, 0x30, 0x3A, 0x31, 0x36, 0x3A, 0x31, 0x32, 0x38, 0x3A,
        0x31, 0x32, 0x38, 0x3A, 1, 2, 3]
   \<and> parseCompactAudioHeader (compact_frame [0, 0, 1, 3000000000, 16000, 16, 128, 128] [1, 2, 3])
     = None
   \<and> map parseCompactAudioHeader
        (frames_to [0x10, 0x00, 0x3B, 0x48, 0x1A, 1]
           (snd (sendAudioChunks (example_registry\<lparr>audioBufferIndex := 250\<rparr>) late_clock)))
     = [None]
   \<and> parseCompactAudioHeader (compact_frame [0, 0, 1, 2147483647, 16000, 16, 128, 128] [1, 2, 3])
     = Some ([0, 0, 1, 2147483647, 16000, 16, 128, 128],
             length (compact_header [0, 0, 1, 2147483647, 16000, 16, 128, 128]) + 1)"
proof -
  have n: "\<exists>v \<in> set [0, 0, 1, 3000000000, 16000, 16, 128, 128 :: i32]. sint v < 0"
    using sint_late by simp
  have a: "parseCompactAudioHeader
      (compact_frame [0, 0, 1, 3000000000, 16000, 16, 128, 128] [1, 2, 3]) = None"
    using n by (intro negative_field_rejected) simp_all
  let ?st = "example_registry\<lparr>audioBufferIndex := 250\<rparr>"
  let ?F = "frames_to [0x10, 0x00, 0x3B, 0x48, 0x1A, 1] (snd (sendAudioChunks ?st late_clock))"
  have p: "peers ?st = peers example_registry"
    by (simp add: peers_def)
  have "length ?F = (250 div AUDIO_CHUNK_SIZE)
      * length (filter (\<lambda>d. isActive d \<and> mac d = [0x10, 0x00, 0x3B, 0x48, 0x1A, 1])
          (peers example_registry))"
    unfolding sendAudioChunks_frame_count p by simp
  also have "\<dots> = 1"
    unfolding example_registry_peers by (simp add: AUDIO_CHUNK_SIZE_def example_peer_def)
  finally have l: "length ?F = 1" .
  then obtain msg where f: "?F = [msg]"
    by (cases ?F) auto
  have late: "\<forall>c. sint (late_clock c) < 0"
    using sint_late by (simp add: late_clock_def)
  have "msg \<in> set ?F" using f by simp
  then have "parseCompactAudioHeader msg = None"
    using late_frames_rejected [OF late] by blast
  then have b: "map parseCompactAudioHeader ?F = [None]"
    using f by simp
  have l8: "length [0, 0, 1, 2147483647, 16000, 16, 128, 128 :: i32] = 8" by simp
  have nn: "\<forall>v \<in> set [0, 0, 1, 2147483647, 16000, 16, 128, 128 :: i32]. 0 \<le> sint v" by simp
  have pl: "[1, 2, 3 :: u8] \<noteq> []" by simp
  have fits: "int (length (compact_header [0, 0, 1, 2147483647, 16000, 16, 128, 128]))
             + int (length [1, 2, 3 :: u8]) + 1 < 300"
    using compact_header_length [OF l8] by simp
  have cf: "compact_frame [0, 0, 1, 2147483647, 16000, 16, 128, 128] [1, 2, 3]
      = compact_header [0, 0, 1, 2147483647, 16000, 16, 128, 128] @ [0x3A] @ [1, 2, 3]"
    using fits by (simp add: compact_frame_def Let_def)
  have c: "parseCompactAudioHeader
      (compact_frame [0, 0, 1, 2147483647, 16000, 16, 128, 128] [1, 2, 3])
     = Some ([0, 0, 1, 2147483647, 16000, 16, 128, 128],
             length (compact_header [0, 0, 1, 2147483647, 16000, 16, 128, 128]) + 1)"
    unfolding cf using compact_roundtrip [OF l8 nn pl] .
  from print_late late_frame_bytes a b c show ?thesis
    by (intro conjI)
qed

theorem late_uptime_frame_rejected_witness:
  "length (compact_frame [0, 0, 1, 3000000000, 16000, 16, 128, 128] [1, 2, 3]) = 40
   \<and> compact_frame [0, 0, 1, 3000000000, 16000, 16, 128, 128] [1, 2, 3] ! 0 = 0x50
   \<and> compact_frame [0, 0, 1, 3000000000, 16000, 16, 128, 128] [1, 2, 3] ! 1 = 0x3A
   \<and> compact_frame [0, 0, 1, 3000000000, 16000, 16, 128, 128] [1, 2, 3] ! 8 = 0x2D
   \<and> parseCompactAudioHeader (compact_frame [0, 0, 1, 3000000000, 16000, 16, 128, 128] [1, 2, 3])
     = None"
proof -
  note t = late_uptime_frame_rejected
  have f: "compact_frame [0, 0, 1, 3000000000, 16000, 16, 128, 128] [1, 2, 3]
     = [0x50, 0x3A, 0x30, 0x3A, 0x30, 0x3A, 0x31, 0x3A,
        0x2D, 0x31, 0x32, 0x39, 0x34, 0x39, 0x36, 0x37, 0x32, 0x39, 0x36, 0x3A,
        0x31, 0x36, 0x30, 0x30, 0x30, 0x3A, 0x31, 0x36, 0x3A, 0x31, 0x32, 0x38, 0x3A,
        0x31, 0x32, 0x38, 0x3A, 1, 2, 3]"
    by (rule conjunct1 [OF conjunct2 [OF t]])
  have p: "parseCompactAudioHeader
        (compact_frame [0, 0, 1, 3000000000, 16000, 16, 128, 128] [1, 2, 3]) = None"
    by (rule conjunct1 [OF conjunct2 [OF conjunct2 [OF t]]])
  show ?thesis
    unfolding p unfolding f by simp
qed

end
